theory Spec2Isabelle
  imports Main
begin

section \<open>Python values, sequences and grids\<close>

text \<open>
  The maze explorer stores \<open>None\<close>, the integers 0, 1, 2 and the string \<open>"+"\<close> in
  its maps. Tests on these values are Python truthiness (\<open>if v\<close>, \<open>not v\<close>) and
  equality (\<open>v == 1\<close>, \<open>v == None\<close>).
\<close>

datatype pyval = PyNone | PyInt int | PyStr string

datatype error = IndexError | ValueError | KeyError

fun truthy :: "pyval \<Rightarrow> bool" where
  "truthy PyNone = False"
| "truthy (PyInt n) = (n \<noteq> 0)"
| "truthy (PyStr s) = (s \<noteq> [])"

text \<open>The constants of \<open>MiroHandler.__init__\<close> and \<open>MiroSimulation.__init__\<close>:
  walls and cells share the integers 0 and 1 and are told apart by their position.\<close>

abbreviation NO_WALL :: pyval where "NO_WALL \<equiv> PyInt 0"
abbreviation WALL :: pyval where "WALL \<equiv> PyInt 1"
abbreviation WALL_INTERSECTION :: pyval where "WALL_INTERSECTION \<equiv> PyStr ''+''"
abbreviation CELL :: pyval where "CELL \<equiv> PyInt 0"
abbreviation PIT :: pyval where "PIT \<equiv> PyInt 1"
abbreviation WIN :: pyval where "WIN \<equiv> PyInt 2"

text \<open>Subscripting a Python sequence of length \<open>n\<close>: a negative index counts from the
  end, anything outside \<open>-n .. n-1\<close> raises IndexError.\<close>

definition py_index :: "nat \<Rightarrow> int \<Rightarrow> nat option" where
  "py_index n i =
     (let j = (if i < 0 then i + int n else i)
      in if 0 \<le> j \<and> j < int n then Some (nat j) else None)"

definition getitem :: "'a list \<Rightarrow> int \<Rightarrow> error + 'a" where
  "getitem xs i =
     (case py_index (length xs) i of None \<Rightarrow> Inl IndexError | Some k \<Rightarrow> Inr (xs ! k))"

definition setitem :: "'a list \<Rightarrow> int \<Rightarrow> 'a \<Rightarrow> error + 'a list" where
  "setitem xs i v =
     (case py_index (length xs) i of None \<Rightarrow> Inl IndexError | Some k \<Rightarrow> Inr (xs[k := v]))"

type_synonym grid = "pyval list list"

text \<open>\<open>m[y][x]\<close> and \<open>m[y][x] = v\<close>. Every row of a map is a list object of its own
  (each is built by a separate expression), so writing a row back at its index is the
  in-place update.\<close>

definition grid_get :: "grid \<Rightarrow> int \<Rightarrow> int \<Rightarrow> error + pyval" where
  "grid_get m yy xx = (case getitem m yy of Inl e \<Rightarrow> Inl e | Inr row \<Rightarrow> getitem row xx)"

definition grid_set :: "grid \<Rightarrow> int \<Rightarrow> int \<Rightarrow> pyval \<Rightarrow> error + grid" where
  "grid_set m yy xx v =
     (case getitem m yy of
        Inl e \<Rightarrow> Inl e
      | Inr row \<Rightarrow>
          (case setitem row xx v of
             Inl e \<Rightarrow> Inl e
           | Inr row' \<Rightarrow> setitem m yy row'))"

section \<open>Position: directions and offsets\<close>

datatype direction = North | East | South | West

definition DIRECTIONS :: "direction list" where
  "DIRECTIONS = [North, East, South, West]"

text \<open>\<open>DIRECTIONS.index(d)\<close>: every direction occurs in the tuple.\<close>

fun tuple_index :: "'a list \<Rightarrow> 'a \<Rightarrow> int" where
  "tuple_index [] a = 0"
| "tuple_index (b # bs) a = (if b = a then 0 else 1 + tuple_index bs a)"

text \<open>A \<open>Position(x, y)\<close> built without a direction is a \<open>cell\<close>; the handler's own
  position carries the direction as well.\<close>

record cell =
  xpos :: int
  ypos :: int

record position = cell +
  direction :: direction

record offset =
  off_x :: int
  off_y :: int

definition right_of :: "direction \<Rightarrow> direction" where
  "right_of d =
     (let possible_direction_index = tuple_index DIRECTIONS d + 1
      in DIRECTIONS ! nat (if possible_direction_index \<le> 3 then possible_direction_index else 0))"

text \<open>\<open>DIRECTIONS[DIRECTIONS.index(d) - 1]\<close>: index \<open>-1\<close> is the last element.\<close>

definition left_of :: "direction \<Rightarrow> direction" where
  "left_of d =
     (let i = tuple_index DIRECTIONS d - 1
      in DIRECTIONS ! nat (if i < 0 then i + int (length DIRECTIONS) else i))"

datatype step_type = Walls | Cells

definition handle_direction :: "step_type \<Rightarrow> direction \<Rightarrow> offset" where
  "handle_direction st d =
     (let step = (if st = Walls then 1 else 2)
      in if d = North then \<lparr>off_x = 0, off_y = - step\<rparr>
         else if d = East then \<lparr>off_x = step, off_y = 0\<rparr>
         else if d = South then \<lparr>off_x = 0, off_y = step\<rparr>
         else \<lparr>off_x = - step, off_y = 0\<rparr>)"

section \<open>MiroSimulation: the ground-truth map and its percepts\<close>

definition newline :: char where
  "newline = CHR 0x0A"

text \<open>\<open>s.split("\n")\<close>\<close>

fun split_lines :: "string \<Rightarrow> string list" where
  "split_lines [] = [[]]"
| "split_lines (c # cs) =
     (if c = newline then [] # split_lines cs
      else (case split_lines cs of [] \<Rightarrow> [[c]] | l # ls \<Rightarrow> (c # l) # ls))"

fun parse_line :: "string \<Rightarrow> pyval list" where
  "parse_line [] = []"
| "parse_line (c # cs) =
     (if c \<noteq> CHR '' '' then
        (if c = CHR ''+'' then WALL_INTERSECTION # parse_line cs
         else if c = CHR ''-'' \<or> c = CHR ''|'' then WALL # parse_line cs
         else if c = CHR ''.'' then NO_WALL # parse_line cs
         else if c = CHR ''o'' then CELL # parse_line cs
         else if c = CHR ''x'' then PIT # parse_line cs
         else if c = CHR ''w'' then WIN # parse_line cs
         else parse_line cs)
      else parse_line cs)"

definition generate_world_map_from_file :: "string \<Rightarrow> grid" where
  "generate_world_map_from_file s = map parse_line (split_lines s)"

text \<open>The simulation keeps a reference to the handler's position object; the percepts
  read the current position through it, so the model passes that position in.\<close>

definition check_wall_infront :: "grid \<Rightarrow> position \<Rightarrow> error + bool" where
  "check_wall_infront sim p =
     (let off = handle_direction Walls (direction p)
      in case grid_get sim (ypos p + off_y off) (xpos p + off_x off) of
           Inl e \<Rightarrow> Inl e
         | Inr v \<Rightarrow> Inr (truthy v))"

definition check_pit_infront :: "grid \<Rightarrow> position \<Rightarrow> error + bool" where
  "check_pit_infront sim p =
     (let off = handle_direction Cells (direction p)
      in case grid_get sim (ypos p + off_y off) (xpos p + off_x off) of
           Inl e \<Rightarrow> Inl e
         | Inr v \<Rightarrow> Inr (v = PyInt 1))"

definition check_treasure_infront :: "grid \<Rightarrow> position \<Rightarrow> error + bool" where
  "check_treasure_infront sim p =
     (let off = handle_direction Cells (direction p)
      in case grid_get sim (ypos p + off_y off) (xpos p + off_x off) of
           Inl e \<Rightarrow> Inl e
         | Inr v \<Rightarrow> Inr (v = PyInt 2))"

section \<open>MiroHandler: the knowledge grid and the pose\<close>

record handler =
  MAP_DIMENSIONS :: int
  current_postion :: position
  world_map :: grid

text \<open>\<open>xs * k\<close> on lists: \<open>k\<close> copies, none when \<open>k\<close> is not positive.\<close>

definition list_times :: "'a list \<Rightarrow> int \<Rightarrow> 'a list" where
  "list_times xs k = concat (replicate (nat k) xs)"

definition generate_world_map :: "int \<Rightarrow> position \<Rightarrow> error + grid" where
  "generate_world_map n p =
     (let top = [WALL_INTERSECTION] @ list_times [WALL, WALL_INTERSECTION] (n div 2);
          middle = map (\<lambda>i. if i mod 2 = 0
                             then [WALL] @ list_times [PyNone] (n - 2) @ [WALL]
                             else [WALL_INTERSECTION] @ list_times [PyNone, WALL_INTERSECTION] (n div 2))
                       [0 ..< nat (n - 2)];
          bottom = [WALL_INTERSECTION] @ list_times [WALL, WALL_INTERSECTION] (n div 2)
      in grid_set ([top] @ middle @ [bottom]) (ypos p) (xpos p) CELL)"

definition MiroHandler :: "int \<Rightarrow> position \<Rightarrow> error + handler" where
  "MiroHandler map_dimensions starting_position =
     (case generate_world_map map_dimensions starting_position of
        Inl e \<Rightarrow> Inl e
      | Inr m \<Rightarrow> Inr \<lparr>MAP_DIMENSIONS = map_dimensions,
                      current_postion = starting_position,
                      world_map = m\<rparr>)"

definition move_forward :: "handler \<Rightarrow> handler" where
  "move_forward h =
     (let p = current_postion h; off = handle_direction Cells (direction p)
      in h\<lparr>current_postion := p\<lparr>xpos := xpos p + off_x off, ypos := ypos p + off_y off\<rparr>\<rparr>)"

definition move_backward :: "handler \<Rightarrow> handler" where
  "move_backward h =
     (let p = current_postion h; off = handle_direction Cells (direction p)
      in h\<lparr>current_postion := p\<lparr>xpos := xpos p - off_x off, ypos := ypos p - off_y off\<rparr>\<rparr>)"

definition turn_left :: "handler \<Rightarrow> handler" where
  "turn_left h =
     (let p = current_postion h in h\<lparr>current_postion := p\<lparr>direction := left_of (direction p)\<rparr>\<rparr>)"

definition turn_right :: "handler \<Rightarrow> handler" where
  "turn_right h =
     (let p = current_postion h in h\<lparr>current_postion := p\<lparr>direction := right_of (direction p)\<rparr>\<rparr>)"

text \<open>The \<open>while\<close> loop of \<open>turn_to_face\<close> walks \<open>current_index\<close> down the doubled
  tuple until it meets the target; a subscript that leaves the tuple raises.\<close>

function turn_to_face_loop :: "direction list \<Rightarrow> direction \<Rightarrow> int \<Rightarrow> error + int" where
  "turn_to_face_loop direction_order target current_index =
     (case getitem direction_order current_index of
        Inl e \<Rightarrow> Inl e
      | Inr d \<Rightarrow>
          if d \<noteq> target then turn_to_face_loop direction_order target (current_index - 1)
          else Inr current_index)"
  by pat_completeness auto
termination
proof (relation "measure (\<lambda>(order, target, i). nat (i + int (length order) + 1))")
  show "wf (measure (\<lambda>(order, target, i). nat (i + int (length order) + 1)))"
    by simp
next
  fix direction_order :: "direction list" and target :: direction
    and current_index :: int and d :: direction
  assume "getitem direction_order current_index = Inr d"
  then have "- int (length direction_order) \<le> current_index"
    by (auto simp: getitem_def py_index_def Let_def split: if_splits option.splits)
  then show "((direction_order, target, current_index - 1),
              (direction_order, target, current_index))
             \<in> measure (\<lambda>(order, target, i). nat (i + int (length order) + 1))"
    by simp
qed

text \<open>The primitive turns \<open>turn_to_face\<close> calls, in call order, chosen from
  \<open>left_count\<close>.\<close>

datatype turn = TurnLeft | TurnRight

fun do_turn :: "turn \<Rightarrow> handler \<Rightarrow> handler" where
  "do_turn TurnLeft h = turn_left h"
| "do_turn TurnRight h = turn_right h"

definition turn_to_face_calls :: "handler \<Rightarrow> direction \<Rightarrow> error + turn list" where
  "turn_to_face_calls h target =
     (let direction_order = DIRECTIONS @ DIRECTIONS;
          start_index = tuple_index direction_order (direction (current_postion h)) + 4
      in case turn_to_face_loop direction_order target start_index of
           Inl e \<Rightarrow> Inl e
         | Inr current_index \<Rightarrow>
             (let left_count = start_index - current_index
              in if left_count = 1 then Inr [TurnLeft]
                 else if left_count = 2 then Inr [TurnLeft, TurnLeft]
                 else if left_count = 3 then Inr [TurnRight]
                 else Inr []))"

definition turn_to_face :: "handler \<Rightarrow> direction \<Rightarrow> error + handler" where
  "turn_to_face h target =
     (case turn_to_face_calls h target of
        Inl e \<Rightarrow> Inl e
      | Inr calls \<Rightarrow> Inr (fold do_turn calls h))"

definition get_cell_in_direction ::
  "handler \<Rightarrow> 'a cell_scheme \<Rightarrow> direction \<Rightarrow> error + pyval" where
  "get_cell_in_direction h positon target_direction =
     (let off = handle_direction Cells target_direction
      in grid_get (world_map h) (ypos positon + off_y off) (xpos positon + off_x off))"

definition get_wall_in_direction ::
  "handler \<Rightarrow> 'a cell_scheme \<Rightarrow> direction \<Rightarrow> error + pyval" where
  "get_wall_in_direction h positon target_direction =
     (let off = handle_direction Walls target_direction
      in grid_get (world_map h) (ypos positon + off_y off) (xpos positon + off_x off))"

definition check_valid_path :: "handler \<Rightarrow> direction \<Rightarrow> error + bool" where
  "check_valid_path h target_direction =
     (let pos = current_postion h
      in case get_wall_in_direction h pos target_direction of
           Inl e \<Rightarrow> Inl e
         | Inr w \<Rightarrow>
             if \<not> truthy w then
               (let off = handle_direction Cells target_direction
                in case grid_get (world_map h) (ypos pos + off_y off) (xpos pos + off_x off) of
                     Inl e \<Rightarrow> Inl e
                   | Inr c \<Rightarrow> if \<not> (c = PIT) then Inr True else Inr False)
             else Inr False)"

text \<open>Both recording methods return their argument; the model returns the updated
  handler and the caller keeps the percept it passed.\<close>

definition record_wall_infront :: "handler \<Rightarrow> bool \<Rightarrow> error + handler" where
  "record_wall_infront h wall_infront =
     (let pos = current_postion h; off = handle_direction Walls (direction pos)
      in case grid_set (world_map h) (ypos pos + off_y off) (xpos pos + off_x off)
                (if wall_infront then WALL else NO_WALL) of
           Inl e \<Rightarrow> Inl e
         | Inr m \<Rightarrow> Inr (h\<lparr>world_map := m\<rparr>))"

definition record_pit_infront :: "handler \<Rightarrow> bool \<Rightarrow> error + handler" where
  "record_pit_infront h pit_infront =
     (let pos = current_postion h; off = handle_direction Cells (direction pos)
      in case grid_set (world_map h) (ypos pos + off_y off) (xpos pos + off_x off)
                (if pit_infront then PIT else CELL) of
           Inl e \<Rightarrow> Inl e
         | Inr m \<Rightarrow> Inr (h\<lparr>world_map := m\<rparr>))"

definition direction_recorded :: "handler \<Rightarrow> direction \<Rightarrow> error + bool" where
  "direction_recorded h d =
     (case get_wall_in_direction h (current_postion h) d of
        Inl e \<Rightarrow> Inl e
      | Inr wall_value \<Rightarrow>
          if wall_value = PyInt 0 then
            (case get_cell_in_direction h (current_postion h) d of
               Inl e \<Rightarrow> Inl e
             | Inr c \<Rightarrow> if c = PyNone then Inr False else Inr True)
          else if wall_value = PyNone then Inr False
          else Inr True)"

datatype order = Pathfinding | Scanning

definition generate_direction_priority :: "handler \<Rightarrow> order option \<Rightarrow> direction list" where
  "generate_direction_priority h order_arg =
     (let ord = (case order_arg of None \<Rightarrow> Pathfinding | Some ord \<Rightarrow> ord);
          facing = direction (current_postion h);
          forward_direction = (if ord = Pathfinding then left_of facing else facing);
          direction_priority = [forward_direction, left_of forward_direction];
          backward = left_of (left_of facing)
      in if ord = Pathfinding
         then direction_priority @ [right_of forward_direction, backward]
         else direction_priority @ [backward, right_of forward_direction])"

fun count_loop :: "handler \<Rightarrow> 'a cell_scheme \<Rightarrow> direction list \<Rightarrow> nat \<Rightarrow> error + nat" where
  "count_loop h scanning_start_cell [] unexplored_cells_count = Inr unexplored_cells_count"
| "count_loop h scanning_start_cell (scan_direction # rest) unexplored_cells_count =
     (case get_wall_in_direction h scanning_start_cell scan_direction of
        Inl e \<Rightarrow> Inl e
      | Inr w \<Rightarrow>
          if \<not> (w = WALL) then
            (let off = handle_direction Cells scan_direction;
                 cell_in_scanning_direction =
                   \<lparr>xpos = xpos scanning_start_cell + off_x off,
                    ypos = ypos scanning_start_cell + off_y off\<rparr>
             in case grid_get (world_map h) (ypos cell_in_scanning_direction)
                       (xpos cell_in_scanning_direction) of
                  Inl e \<Rightarrow> Inl e
                | Inr c \<Rightarrow>
                    if c = PyNone
                    then count_loop h scanning_start_cell rest (unexplored_cells_count + 1)
                    else count_loop h scanning_start_cell rest unexplored_cells_count)
          else count_loop h scanning_start_cell rest unexplored_cells_count)"

definition count_surrounding_unexplored :: "handler \<Rightarrow> 'a cell_scheme \<Rightarrow> error + nat" where
  "count_surrounding_unexplored h scanning_start_cell =
     count_loop h scanning_start_cell DIRECTIONS 0"

text \<open>\<open>unexplored_dict\<close>: a dictionary from counts to lists of directions, kept as an
  association list in insertion order.\<close>

type_synonym unexplored_dict = "(nat \<times> direction list) list"

definition dict_store :: "unexplored_dict \<Rightarrow> nat \<Rightarrow> direction list \<Rightarrow> unexplored_dict" where
  "dict_store dct k v =
     (if k \<in> set (map fst dct) then map (\<lambda>(k', v'). if k' = k then (k', v) else (k', v')) dct
      else dct @ [(k, v)])"

definition dict_lookup :: "unexplored_dict \<Rightarrow> nat \<Rightarrow> error + direction list" where
  "dict_lookup dct k = (case map_of dct k of None \<Rightarrow> Inl KeyError | Some v \<Rightarrow> Inr v)"

text \<open>\<open>max(d)\<close> over the keys; ValueError on an empty dictionary.\<close>

definition dict_max :: "unexplored_dict \<Rightarrow> error + nat" where
  "dict_max dct = (case map fst dct of [] \<Rightarrow> Inl ValueError | k # ks \<Rightarrow> Inr (fold max ks k))"

fun find_best_loop :: "handler \<Rightarrow> direction list \<Rightarrow> unexplored_dict \<Rightarrow> error + unexplored_dict" where
  "find_best_loop h [] dct = Inr dct"
| "find_best_loop h (move_direction # rest) dct =
     (case check_valid_path h move_direction of
        Inl e \<Rightarrow> Inl e
      | Inr valid \<Rightarrow>
          if valid then
            (let off = handle_direction Cells move_direction
             in case count_surrounding_unexplored h
                       \<lparr>xpos = xpos (current_postion h) + off_x off,
                        ypos = ypos (current_postion h) + off_y off\<rparr> of
                  Inl e \<Rightarrow> Inl e
                | Inr unexplored_cells_in_move_direction \<Rightarrow>
                    (let dct1 = (if unexplored_cells_in_move_direction \<notin> set (map fst dct)
                                 then dict_store dct unexplored_cells_in_move_direction []
                                 else dct)
                     in case dict_lookup dct1 unexplored_cells_in_move_direction of
                          Inl e \<Rightarrow> Inl e
                        | Inr l \<Rightarrow>
                            find_best_loop h rest
                              (dict_store dct1 unexplored_cells_in_move_direction
                                 (l @ [move_direction]))))
          else find_best_loop h rest dct)"

definition find_best_direction :: "handler \<Rightarrow> error + direction" where
  "find_best_direction h =
     (case find_best_loop h (generate_direction_priority h None) [] of
        Inl e \<Rightarrow> Inl e
      | Inr dct \<Rightarrow>
          (case dict_max dct of
             Inl e \<Rightarrow> Inl e
           | Inr k \<Rightarrow>
               (case dict_lookup dct k of
                  Inl e \<Rightarrow> Inl e
                | Inr l \<Rightarrow> getitem l 0)))"

section \<open>The exploration loop\<close>

text \<open>
  The module-level loop as a machine. \<open>Scan ds\<close> is the \<open>for\<close> loop with the
  directions \<open>ds\<close> still to visit, \<open>Decide\<close> the block under
  \<open>if not goal_reached\<close>, \<open>GoalFound\<close> the exit of the \<open>while\<close> loop and
  \<open>Failed e\<close> an exception that nothing catches. A state carries the handler as it
  is at that point. Printing the map and sleeping change nothing and are left out.
\<close>

datatype phase = Scan "direction list" | Decide | GoalFound | Failed error

type_synonym state = "handler \<times> phase"

text \<open>One pass through the body of the \<open>for\<close> loop: the handler afterwards (or at the
  raise) and whether \<open>goal_reached\<close> was set (the \<open>break\<close>).\<close>

definition scan_direction :: "grid \<Rightarrow> handler \<Rightarrow> direction \<Rightarrow> handler \<times> (error + bool)" where
  "scan_direction sim h scan_dir =
     (case direction_recorded h scan_dir of
        Inl e \<Rightarrow> (h, Inl e)
      | Inr recorded \<Rightarrow>
          if \<not> recorded then
            (case turn_to_face h scan_dir of
               Inl e \<Rightarrow> (h, Inl e)
             | Inr h1 \<Rightarrow>
                 (case check_wall_infront sim (current_postion h1) of
                    Inl e \<Rightarrow> (h1, Inl e)
                  | Inr wall_infront \<Rightarrow>
                      (case record_wall_infront h1 wall_infront of
                         Inl e \<Rightarrow> (h1, Inl e)
                       | Inr h2 \<Rightarrow>
                           if \<not> wall_infront then
                             (case check_treasure_infront sim (current_postion h2) of
                                Inl e \<Rightarrow> (h2, Inl e)
                              | Inr treasure \<Rightarrow>
                                  if treasure then (move_forward h2, Inr True)
                                  else
                                    (case check_pit_infront sim (current_postion h2) of
                                       Inl e \<Rightarrow> (h2, Inl e)
                                     | Inr pit_infront \<Rightarrow>
                                         (case record_pit_infront h2 pit_infront of
                                            Inl e \<Rightarrow> (h2, Inl e)
                                          | Inr h3 \<Rightarrow> (h3, Inr False))))
                           else (h2, Inr False))))
          else (h, Inr False))"

fun step :: "grid \<Rightarrow> state \<Rightarrow> state" where
  "step sim (h, Scan []) = (h, Decide)"
| "step sim (h, Scan (scan_dir # rest)) =
     (case scan_direction sim h scan_dir of
        (h', Inl e) \<Rightarrow> (h', Failed e)
      | (h', Inr goal_reached) \<Rightarrow> if goal_reached then (h', GoalFound) else (h', Scan rest))"
| "step sim (h, Decide) =
     (case find_best_direction h of
        Inl e \<Rightarrow> (h, Failed e)
      | Inr target_drection \<Rightarrow>
          (case turn_to_face h target_drection of
             Inl e \<Rightarrow> (h, Failed e)
           | Inr h1 \<Rightarrow>
               (let h2 = move_forward h1
                in (h2, Scan (generate_direction_priority h2 (Some Scanning))))))"
| "step sim (h, GoalFound) = (h, GoalFound)"
| "step sim (h, Failed e) = (h, Failed e)"

fun run :: "nat \<Rightarrow> grid \<Rightarrow> state \<Rightarrow> state" where
  "run 0 sim s = s"
| "run (Suc k) sim s = step sim (run k sim s)"

text \<open>The script: the handler is built for \<open>MAP_SIZE\<close> at \<open>Position(1, MAP_SIZE * 2 - 1,
  "east")\<close>, the simulation parses \<open>WORLD_MAP_STRING\<close> (as configured, after its
  \<open>strip\<close>), and the loop starts with the scanning order. \<open>explore k\<close> is the state
  after \<open>k\<close> steps of the machine.\<close>

definition initial_state :: "int \<Rightarrow> error + state" where
  "initial_state map_size =
     (case MiroHandler (map_size * 2 + 1) \<lparr>xpos = 1, ypos = map_size * 2 - 1, direction = East\<rparr> of
        Inl e \<Rightarrow> Inl e
      | Inr h \<Rightarrow> Inr (h, Scan (generate_direction_priority h (Some Scanning))))"

definition explore :: "nat \<Rightarrow> int \<Rightarrow> string \<Rightarrow> error + state" where
  "explore k map_size world_map_string =
     (case initial_state map_size of
        Inl e \<Rightarrow> Inl e
      | Inr s \<Rightarrow> Inr (run k (generate_world_map_from_file world_map_string) s))"

section \<open>Example mazes and states\<close>

text \<open>The handler the script builds for \<open>MAP_SIZE = 2\<close>, before any scan.\<close>

definition fresh_handler :: handler where
  "fresh_handler =
     \<lparr>MAP_DIMENSIONS = 5,
      current_postion = \<lparr>xpos = 1, ypos = 3, direction = East\<rparr>,
      world_map =
        [[WALL_INTERSECTION, WALL, WALL_INTERSECTION, WALL, WALL_INTERSECTION],
         [WALL, PyNone, PyNone, PyNone, WALL],
         [WALL_INTERSECTION, PyNone, WALL_INTERSECTION, PyNone, WALL_INTERSECTION],
         [WALL, CELL, PyNone, PyNone, WALL],
         [WALL_INTERSECTION, WALL, WALL_INTERSECTION, WALL, WALL_INTERSECTION]]\<rparr>"

text \<open>A 1 by 1 maze whose only cell holds the treasure.\<close>

definition single_cell_map :: string where
  "single_cell_map =
     ''+  -  +'' @ [newline] @
     ''|  w  |'' @ [newline] @
     ''+  -  +''"

text \<open>A 2 by 2 maze in which the cell north of the start is a dead end.\<close>

definition dead_end_map :: string where
  "dead_end_map =
     ''+  -  +  -  +'' @ [newline] @
     ''|  o  |  w  |'' @ [newline] @
     ''+  .  +  -  +'' @ [newline] @
     ''|  o  .  o  |'' @ [newline] @
     ''+  -  +  -  +''"

text \<open>The handler in that dead end after its scan: the way back south is open.\<close>

definition dead_end_handler :: handler where
  "dead_end_handler =
     \<lparr>MAP_DIMENSIONS = 5,
      current_postion = \<lparr>xpos = 1, ypos = 1, direction = East\<rparr>,
      world_map =
        [[WALL_INTERSECTION, WALL, WALL_INTERSECTION, WALL, WALL_INTERSECTION],
         [WALL, CELL, WALL, PyNone, WALL],
         [WALL_INTERSECTION, NO_WALL, WALL_INTERSECTION, PyNone, WALL_INTERSECTION],
         [WALL, CELL, NO_WALL, CELL, WALL],
         [WALL_INTERSECTION, WALL, WALL_INTERSECTION, WALL, WALL_INTERSECTION]]\<rparr>"

text \<open>The handler the script builds for \<open>MAP_SIZE = 1\<close>: one cell inside the ring of
  boundary walls.\<close>

definition single_cell_handler :: handler where
  "single_cell_handler =
     \<lparr>MAP_DIMENSIONS = 3,
      current_postion = \<lparr>xpos = 1, ypos = 1, direction = East\<rparr>,
      world_map =
        [[WALL_INTERSECTION, WALL, WALL_INTERSECTION],
         [WALL, CELL, WALL],
         [WALL_INTERSECTION, WALL, WALL_INTERSECTION]]\<rparr>"

text \<open>The handler at the first decide step in \<open>dead_end_map\<close>: after the scan of
  the start cell, facing north, with the ways north and east recorded open.\<close>

definition first_decide_handler :: handler where
  "first_decide_handler =
     \<lparr>MAP_DIMENSIONS = 5,
      current_postion = \<lparr>xpos = 1, ypos = 3, direction = North\<rparr>,
      world_map =
        [[WALL_INTERSECTION, WALL, WALL_INTERSECTION, WALL, WALL_INTERSECTION],
         [WALL, CELL, PyNone, PyNone, WALL],
         [WALL_INTERSECTION, NO_WALL, WALL_INTERSECTION, PyNone, WALL_INTERSECTION],
         [WALL, CELL, NO_WALL, CELL, WALL],
         [WALL_INTERSECTION, WALL, WALL_INTERSECTION, WALL, WALL_INTERSECTION]]\<rparr>"

text \<open>A 2 by 2 maze with the treasure in the cell east of the start, and the handler
  after the first scan step there: it has stepped onto the treasure cell.\<close>

definition goal_ahead_map :: string where
  "goal_ahead_map =
     ''+  -  +  -  +'' @ [newline] @
     ''|  o  .  o  |'' @ [newline] @
     ''+  .  +  .  +'' @ [newline] @
     ''|  o  .  w  |'' @ [newline] @
     ''+  -  +  -  +''"

definition goal_ahead_handler :: handler where
  "goal_ahead_handler =
     \<lparr>MAP_DIMENSIONS = 5,
      current_postion = \<lparr>xpos = 3, ypos = 3, direction = East\<rparr>,
      world_map =
        [[WALL_INTERSECTION, WALL, WALL_INTERSECTION, WALL, WALL_INTERSECTION],
         [WALL, PyNone, PyNone, PyNone, WALL],
         [WALL_INTERSECTION, PyNone, WALL_INTERSECTION, PyNone, WALL_INTERSECTION],
         [WALL, CELL, NO_WALL, PyNone, WALL],
         [WALL_INTERSECTION, WALL, WALL_INTERSECTION, WALL, WALL_INTERSECTION]]\<rparr>"

section \<open>Notions used to state the properties\<close>

text \<open>The \<open>Position\<close> that \<open>find_best_direction\<close> builds for a move direction, and the
  count it asks for there.\<close>

definition neighbour_cell :: "handler \<Rightarrow> direction \<Rightarrow> cell" where
  "neighbour_cell h d =
     \<lparr>xpos = xpos (current_postion h) + off_x (handle_direction Cells d),
      ypos = ypos (current_postion h) + off_y (handle_direction Cells d)\<rparr>"

definition unexplored_score :: "handler \<Rightarrow> direction \<Rightarrow> error + nat" where
  "unexplored_score h d = count_surrounding_unexplored h (neighbour_cell h d)"

text \<open>The three dictionary statements of the loop body of \<open>find_best_direction\<close> taken
  together: the direction joins the list kept under its count.\<close>

definition dict_add :: "unexplored_dict \<Rightarrow> nat \<Rightarrow> direction \<Rightarrow> unexplored_dict" where
  "dict_add dct k d =
     dict_store (if k \<notin> set (map fst dct) then dict_store dct k [] else dct) k
       ((case map_of dct k of None \<Rightarrow> [] | Some l \<Rightarrow> l) @ [d])"

section \<open>Invariants of the exploration loop\<close>

text \<open>A square grid of side \<open>n\<close>, the indices that lie in it, and the odd indices
  strictly inside the boundary ring (the coordinates of traversable cells).\<close>

definition grid_shape :: "int \<Rightarrow> grid \<Rightarrow> bool" where
  "grid_shape n m \<longleftrightarrow> int (length m) = n \<and> (\<forall>row \<in> set m. int (length row) = n)"

definition in_grid :: "int \<Rightarrow> int \<Rightarrow> bool" where
  "in_grid n i \<longleftrightarrow> 0 \<le> i \<and> i < n"

definition interior :: "int \<Rightarrow> int \<Rightarrow> bool" where
  "interior n i \<longleftrightarrow> odd i \<and> 0 < i \<and> i < n - 1"

text \<open>The structure that every state of a run keeps: an odd side of at least 3, the pose
  on a cell inside the ring, the ring of boundary walls, the intersections, and no values
  other than the four the handler writes.\<close>

definition well_formed :: "handler \<Rightarrow> bool" where
  "well_formed h \<longleftrightarrow>
     3 \<le> MAP_DIMENSIONS h \<and> odd (MAP_DIMENSIONS h)
     \<and> grid_shape (MAP_DIMENSIONS h) (world_map h)
     \<and> interior (MAP_DIMENSIONS h) (xpos (current_postion h))
     \<and> interior (MAP_DIMENSIONS h) (ypos (current_postion h))
     \<and> (\<forall>k. in_grid (MAP_DIMENSIONS h) k \<and> odd k \<longrightarrow>
            grid_get (world_map h) 0 k = Inr WALL
          \<and> grid_get (world_map h) (MAP_DIMENSIONS h - 1) k = Inr WALL
          \<and> grid_get (world_map h) k 0 = Inr WALL
          \<and> grid_get (world_map h) k (MAP_DIMENSIONS h - 1) = Inr WALL)
     \<and> (\<forall>i j. in_grid (MAP_DIMENSIONS h) i \<and> in_grid (MAP_DIMENSIONS h) j \<and> even i \<and> even j \<longrightarrow>
            grid_get (world_map h) i j = Inr WALL_INTERSECTION)
     \<and> (\<forall>i j. in_grid (MAP_DIMENSIONS h) i \<and> in_grid (MAP_DIMENSIONS h) j \<longrightarrow>
            grid_get (world_map h) i j \<in> {Inr PyNone, Inr (PyInt 0), Inr (PyInt 1), Inr WALL_INTERSECTION})"

text \<open>What the handler knows while the loop is running: its own cell is recorded; a wall
  segment recorded open has the cell behind it recorded; and a recorded cell is the
  current one, or has all four of its wall segments recorded, or holds what the
  simulation answers for it.\<close>

definition consistent :: "grid \<Rightarrow> handler \<Rightarrow> bool" where
  "consistent sim h \<longleftrightarrow>
     grid_get (world_map h) (ypos (current_postion h)) (xpos (current_postion h)) \<noteq> Inr PyNone
     \<and> (\<forall>cx cy d. interior (MAP_DIMENSIONS h) cx \<and> interior (MAP_DIMENSIONS h) cy
            \<and> get_wall_in_direction h \<lparr>xpos = cx, ypos = cy\<rparr> d = Inr NO_WALL \<longrightarrow>
            get_cell_in_direction h \<lparr>xpos = cx, ypos = cy\<rparr> d \<noteq> Inr PyNone)
     \<and> (\<forall>cx cy v. interior (MAP_DIMENSIONS h) cx \<and> interior (MAP_DIMENSIONS h) cy
            \<and> grid_get (world_map h) cy cx = Inr v \<and> v \<noteq> PyNone \<longrightarrow>
            (cx = xpos (current_postion h) \<and> cy = ypos (current_postion h))
          \<or> (\<forall>d. get_wall_in_direction h \<lparr>xpos = cx, ypos = cy\<rparr> d \<noteq> Inr PyNone)
          \<or> (\<exists>sv. grid_get sim cy cx = Inr sv \<and> v = (if sv = PyInt 1 then PIT else CELL)))"

text \<open>No slot of the grid that holds a value loses or changes it.\<close>

definition knowledge_kept :: "int \<Rightarrow> grid \<Rightarrow> grid \<Rightarrow> bool" where
  "knowledge_kept n m m' \<longleftrightarrow>
     (\<forall>i j v. in_grid n i \<and> in_grid n j \<and> grid_get m i j = Inr v \<and> v \<noteq> PyNone \<longrightarrow>
        grid_get m' i j = Inr v)"

fun invariant :: "grid \<Rightarrow> state \<Rightarrow> bool" where
  "invariant sim (h, Scan ds) \<longleftrightarrow>
     well_formed h \<and> consistent sim h \<and> (\<forall>d. d \<notin> set ds \<longrightarrow> direction_recorded h d = Inr True)"
| "invariant sim (h, Decide) \<longleftrightarrow>
     well_formed h \<and> consistent sim h \<and> (\<forall>d. direction_recorded h d = Inr True)"
| "invariant sim (h, GoalFound) \<longleftrightarrow> well_formed h"
| "invariant sim (h, Failed e) \<longleftrightarrow> well_formed h"

text \<open>The list that \<open>_generate_world_map\<close> builds before it marks the start cell.\<close>

definition blank_map :: "int \<Rightarrow> grid" where
  "blank_map n =
     [[WALL_INTERSECTION] @ list_times [WALL, WALL_INTERSECTION] (n div 2)]
     @ map (\<lambda>i. if i mod 2 = 0
                 then [WALL] @ list_times [PyNone] (n - 2) @ [WALL]
                 else [WALL_INTERSECTION] @ list_times [PyNone, WALL_INTERSECTION] (n div 2))
           [0 ..< nat (n - 2)]
     @ [[WALL_INTERSECTION] @ list_times [WALL, WALL_INTERSECTION] (n div 2)]"

section \<open>Properties\<close>

subsection \<open>Directions, offsets and turning\<close>

lemma left_of_simps [simp]:
  "left_of North = West" "left_of East = North" "left_of South = East" "left_of West = South"
  by (simp_all add: left_of_def DIRECTIONS_def)

lemma right_of_simps [simp]:
  "right_of North = East" "right_of East = South" "right_of South = West" "right_of West = North"
  by (simp_all add: right_of_def DIRECTIONS_def)

lemma left_of_getitem: "getitem DIRECTIONS (tuple_index DIRECTIONS d - 1) = Inr (left_of d)"
  by (cases d) (simp_all add: getitem_def py_index_def DIRECTIONS_def)

lemma handle_direction_simps [simp]:
  "handle_direction Walls North = \<lparr>off_x = 0, off_y = -1\<rparr>"
  "handle_direction Walls East = \<lparr>off_x = 1, off_y = 0\<rparr>"
  "handle_direction Walls South = \<lparr>off_x = 0, off_y = 1\<rparr>"
  "handle_direction Walls West = \<lparr>off_x = -1, off_y = 0\<rparr>"
  "handle_direction Cells North = \<lparr>off_x = 0, off_y = -2\<rparr>"
  "handle_direction Cells East = \<lparr>off_x = 2, off_y = 0\<rparr>"
  "handle_direction Cells South = \<lparr>off_x = 0, off_y = 2\<rparr>"
  "handle_direction Cells West = \<lparr>off_x = -2, off_y = 0\<rparr>"
  by (simp_all add: handle_direction_def)

text \<open>
  C2. The pathfinding order is not a permutation of the four directions. Its fourth
  entry \<open>backward\<close> is taken from the current facing \<open>f\<close>, not from the nominal forward
  \<open>left(f)\<close>, so it repeats the second entry \<open>left(left(f))\<close>, and \<open>right(f)\<close>, the
  direction behind the nominal forward, is never enumerated.
\<close>

theorem pathfinding_priority_repeats_left:
  "generate_direction_priority h (Some Pathfinding) =
     [left_of (direction (current_postion h)),
      left_of (left_of (direction (current_postion h))),
      direction (current_postion h),
      left_of (left_of (direction (current_postion h)))]
   \<and> right_of (direction (current_postion h))
       \<notin> set (generate_direction_priority h (Some Pathfinding))
   \<and> \<not> distinct (generate_direction_priority h (Some Pathfinding))"
  by (cases "direction (current_postion h)") (simp_all add: generate_direction_priority_def)

lemma turn_to_face_loop_value:
  "turn_to_face_loop (DIRECTIONS @ DIRECTIONS) target
     (tuple_index (DIRECTIONS @ DIRECTIONS) f + 4) =
   Inr (tuple_index (DIRECTIONS @ DIRECTIONS) f + 4
        - (if target = f then 0 else if target = left_of f then 1
           else if target = left_of (left_of f) then 2 else 3))"
  by (cases f; cases target)
     (simp_all add: DIRECTIONS_def getitem_def py_index_def)

lemma turn_to_face_calls_value:
  "turn_to_face_calls h target =
     Inr (if target = direction (current_postion h) then []
          else if target = left_of (direction (current_postion h)) then [TurnLeft]
          else if target = right_of (direction (current_postion h)) then [TurnRight]
          else [TurnLeft, TurnLeft])"
  unfolding turn_to_face_calls_def Let_def turn_to_face_loop_value
  by (cases "direction (current_postion h)"; cases target) simp_all

lemma turn_left_simps [simp]:
  "current_postion (turn_left h) = (current_postion h)\<lparr>direction := left_of (direction (current_postion h))\<rparr>"
  "world_map (turn_left h) = world_map h"
  "MAP_DIMENSIONS (turn_left h) = MAP_DIMENSIONS h"
  by (simp_all add: turn_left_def Let_def)

lemma turn_right_simps [simp]:
  "current_postion (turn_right h) = (current_postion h)\<lparr>direction := right_of (direction (current_postion h))\<rparr>"
  "world_map (turn_right h) = world_map h"
  "MAP_DIMENSIONS (turn_right h) = MAP_DIMENSIONS h"
  by (simp_all add: turn_right_def Let_def)

lemma do_turn_frame [simp]:
  "xpos (current_postion (do_turn c h)) = xpos (current_postion h)"
  "ypos (current_postion (do_turn c h)) = ypos (current_postion h)"
  "world_map (do_turn c h) = world_map h"
  "MAP_DIMENSIONS (do_turn c h) = MAP_DIMENSIONS h"
  by (cases c; simp)+

lemma fold_do_turn_frame [simp]:
  "xpos (current_postion (fold do_turn cs h)) = xpos (current_postion h)"
  "ypos (current_postion (fold do_turn cs h)) = ypos (current_postion h)"
  "world_map (fold do_turn cs h) = world_map h"
  "MAP_DIMENSIONS (fold do_turn cs h) = MAP_DIMENSIONS h"
  by (induction cs arbitrary: h; simp)+

lemma turn_to_face_value:
  "turn_to_face h target =
     Inr (h\<lparr>current_postion := (current_postion h)\<lparr>direction := target\<rparr>\<rparr>)"
  unfolding turn_to_face_def turn_to_face_calls_value
  by (cases "direction (current_postion h)"; cases target) (simp_all add: turn_left_def turn_right_def Let_def)

lemma short_turns_facing:
  "length cs < 2 \<Longrightarrow>
   direction (current_postion (fold do_turn cs h)) = direction (current_postion h) \<and> cs = []
   \<or> direction (current_postion (fold do_turn cs h)) = left_of (direction (current_postion h)) \<and> length cs = 1
   \<or> direction (current_postion (fold do_turn cs h)) = right_of (direction (current_postion h)) \<and> length cs = 1"
proof (cases cs)
  case Nil
  then show ?thesis by simp
next
  case (Cons c rest)
  assume "length cs < 2"
  with Cons have "rest = []" by simp
  with Cons show ?thesis by (cases c) simp_all
qed

text \<open>
  C9. \<open>turn_to_face\<close> always succeeds and leaves the handler facing the target, with
  coordinates and map as they were. It makes no call when already facing the target, one
  \<open>turn_left\<close> for a target one step counter-clockwise, one \<open>turn_right\<close> for a target
  one step clockwise and two \<open>turn_left\<close> for the opposite direction; no sequence of
  primitive turns that reaches the target is shorter.
\<close>

theorem turn_to_face_minimal:
  "\<exists>calls. turn_to_face_calls h target = Inr calls
     \<and> turn_to_face h target = Inr (fold do_turn calls h)
     \<and> direction (current_postion (fold do_turn calls h)) = target
     \<and> xpos (current_postion (fold do_turn calls h)) = xpos (current_postion h)
     \<and> ypos (current_postion (fold do_turn calls h)) = ypos (current_postion h)
     \<and> world_map (fold do_turn calls h) = world_map h
     \<and> length calls \<le> 2
     \<and> (target = direction (current_postion h) \<longrightarrow> calls = [])
     \<and> (target = left_of (direction (current_postion h)) \<longrightarrow> calls = [TurnLeft])
     \<and> (target = right_of (direction (current_postion h)) \<longrightarrow> calls = [TurnRight])
     \<and> (target = left_of (left_of (direction (current_postion h))) \<longrightarrow> calls = [TurnLeft, TurnLeft])
     \<and> (\<forall>cs. direction (current_postion (fold do_turn cs h)) = target \<longrightarrow> length calls \<le> length cs)"
proof -
  let ?f = "direction (current_postion h)"
  let ?calls = "if target = ?f then []
          else if target = left_of ?f then [TurnLeft]
          else if target = right_of ?f then [TurnRight]
          else [TurnLeft, TurnLeft]"
  have calls: "turn_to_face_calls h target = Inr ?calls"
    by (rule turn_to_face_calls_value)
  have face: "turn_to_face h target = Inr (fold do_turn ?calls h)"
    by (simp add: turn_to_face_def calls)
  have target: "direction (current_postion (fold do_turn ?calls h)) = target"
    by (cases ?f; cases target) simp_all
  have shape: "(target = ?f \<longrightarrow> ?calls = [])
     \<and> (target = left_of ?f \<longrightarrow> ?calls = [TurnLeft])
     \<and> (target = right_of ?f \<longrightarrow> ?calls = [TurnRight])
     \<and> (target = left_of (left_of ?f) \<longrightarrow> ?calls = [TurnLeft, TurnLeft])"
    by (cases ?f; cases target) simp_all
  have minimal: "length ?calls \<le> length cs"
    if reach: "direction (current_postion (fold do_turn cs h)) = target" for cs
  proof (cases "length cs < 2")
    case False
    then show ?thesis by simp
  next
    case True
    from short_turns_facing [OF True, of h] reach show ?thesis
      by (cases ?f; cases target) auto
  qed
  have len: "length ?calls \<le> 2" by simp
  have frame: "xpos (current_postion (fold do_turn ?calls h)) = xpos (current_postion h)
     \<and> ypos (current_postion (fold do_turn ?calls h)) = ypos (current_postion h)
     \<and> world_map (fold do_turn ?calls h) = world_map h"
    by (simp only: fold_do_turn_frame simp_thms)
  from calls face target frame len shape minimal show ?thesis
    by blast
qed

subsection \<open>Moving and recording\<close>

lemma move_forward_simps [simp]:
  "world_map (move_forward h) = world_map h"
  "MAP_DIMENSIONS (move_forward h) = MAP_DIMENSIONS h"
  "direction (current_postion (move_forward h)) = direction (current_postion h)"
  "xpos (current_postion (move_forward h)) =
     xpos (current_postion h) + off_x (handle_direction Cells (direction (current_postion h)))"
  "ypos (current_postion (move_forward h)) =
     ypos (current_postion h) + off_y (handle_direction Cells (direction (current_postion h)))"
  by (simp_all add: move_forward_def Let_def)

lemma move_backward_simps [simp]:
  "world_map (move_backward h) = world_map h"
  "MAP_DIMENSIONS (move_backward h) = MAP_DIMENSIONS h"
  "direction (current_postion (move_backward h)) = direction (current_postion h)"
  "xpos (current_postion (move_backward h)) =
     xpos (current_postion h) - off_x (handle_direction Cells (direction (current_postion h)))"
  "ypos (current_postion (move_backward h)) =
     ypos (current_postion h) - off_y (handle_direction Cells (direction (current_postion h)))"
  by (simp_all add: move_backward_def Let_def)

lemma record_wall_infront_frame:
  "record_wall_infront h b = Inr h' \<Longrightarrow>
     current_postion h' = current_postion h \<and> MAP_DIMENSIONS h' = MAP_DIMENSIONS h"
  by (auto simp: record_wall_infront_def Let_def split: sum.splits)

lemma record_pit_infront_frame:
  "record_pit_infront h b = Inr h' \<Longrightarrow>
     current_postion h' = current_postion h \<and> MAP_DIMENSIONS h' = MAP_DIMENSIONS h"
  by (auto simp: record_pit_infront_def Let_def split: sum.splits)

lemma cell_step_cases:
  "(off_x (handle_direction Cells d) = 0 \<and> (off_y (handle_direction Cells d) = 2 \<or> off_y (handle_direction Cells d) = -2))
   \<or> (off_y (handle_direction Cells d) = 0 \<and> (off_x (handle_direction Cells d) = 2 \<or> off_x (handle_direction Cells d) = -2))"
  by (cases d) simp_all

text \<open>
  C10. With both coordinates odd, every handler operation leaves them odd: the turns
  (and \<open>turn_to_face\<close>, and the two recording methods) leave the coordinates as they
  are, \<open>move_forward\<close> and \<open>move_backward\<close> change exactly one of them, by exactly 2.
\<close>

theorem handler_operations_keep_coordinates_odd:
  assumes "odd (xpos (current_postion h))" and "odd (ypos (current_postion h))"
  shows "xpos (current_postion (turn_left h)) = xpos (current_postion h)
       \<and> ypos (current_postion (turn_left h)) = ypos (current_postion h)
       \<and> xpos (current_postion (turn_right h)) = xpos (current_postion h)
       \<and> ypos (current_postion (turn_right h)) = ypos (current_postion h)
       \<and> (\<forall>h'. turn_to_face h d = Inr h' \<longrightarrow>
             xpos (current_postion h') = xpos (current_postion h)
           \<and> ypos (current_postion h') = ypos (current_postion h))
       \<and> (\<forall>h'. record_wall_infront h b = Inr h' \<longrightarrow> current_postion h' = current_postion h)
       \<and> (\<forall>h'. record_pit_infront h b = Inr h' \<longrightarrow> current_postion h' = current_postion h)
       \<and> odd (xpos (current_postion (move_forward h)))
       \<and> odd (ypos (current_postion (move_forward h)))
       \<and> odd (xpos (current_postion (move_backward h)))
       \<and> odd (ypos (current_postion (move_backward h)))
       \<and> (xpos (current_postion (move_forward h)) = xpos (current_postion h)
            \<and> \<bar>ypos (current_postion (move_forward h)) - ypos (current_postion h)\<bar> = 2
          \<or> ypos (current_postion (move_forward h)) = ypos (current_postion h)
            \<and> \<bar>xpos (current_postion (move_forward h)) - xpos (current_postion h)\<bar> = 2)
       \<and> (xpos (current_postion (move_backward h)) = xpos (current_postion h)
            \<and> \<bar>ypos (current_postion (move_backward h)) - ypos (current_postion h)\<bar> = 2
          \<or> ypos (current_postion (move_backward h)) = ypos (current_postion h)
            \<and> \<bar>xpos (current_postion (move_backward h)) - xpos (current_postion h)\<bar> = 2)
       \<and> (off_x (handle_direction Cells d), off_y (handle_direction Cells d))
            \<in> {(0, 2), (0, -2), (2, 0), (-2, 0)}"
proof -
  have turns: "xpos (current_postion (turn_left h)) = xpos (current_postion h)
       \<and> ypos (current_postion (turn_left h)) = ypos (current_postion h)
       \<and> xpos (current_postion (turn_right h)) = xpos (current_postion h)
       \<and> ypos (current_postion (turn_right h)) = ypos (current_postion h)"
    by simp
  have face: "\<forall>h'. turn_to_face h d = Inr h' \<longrightarrow>
             xpos (current_postion h') = xpos (current_postion h)
           \<and> ypos (current_postion h') = ypos (current_postion h)"
    by (auto simp: turn_to_face_value)
  have records: "(\<forall>h'. record_wall_infront h b = Inr h' \<longrightarrow> current_postion h' = current_postion h)
       \<and> (\<forall>h'. record_pit_infront h b = Inr h' \<longrightarrow> current_postion h' = current_postion h)"
    using record_wall_infront_frame record_pit_infront_frame by blast
  have moves: "odd (xpos (current_postion (move_forward h)))
       \<and> odd (ypos (current_postion (move_forward h)))
       \<and> odd (xpos (current_postion (move_backward h)))
       \<and> odd (ypos (current_postion (move_backward h)))"
    using assms cell_step_cases [of "direction (current_postion h)"] by auto
  have fwd: "xpos (current_postion (move_forward h)) = xpos (current_postion h)
            \<and> \<bar>ypos (current_postion (move_forward h)) - ypos (current_postion h)\<bar> = 2
          \<or> ypos (current_postion (move_forward h)) = ypos (current_postion h)
            \<and> \<bar>xpos (current_postion (move_forward h)) - xpos (current_postion h)\<bar> = 2"
    using cell_step_cases [of "direction (current_postion h)"] by auto
  have bwd: "xpos (current_postion (move_backward h)) = xpos (current_postion h)
            \<and> \<bar>ypos (current_postion (move_backward h)) - ypos (current_postion h)\<bar> = 2
          \<or> ypos (current_postion (move_backward h)) = ypos (current_postion h)
            \<and> \<bar>xpos (current_postion (move_backward h)) - xpos (current_postion h)\<bar> = 2"
    using cell_step_cases [of "direction (current_postion h)"] by auto
  have offs: "(off_x (handle_direction Cells d), off_y (handle_direction Cells d))
            \<in> {(0, 2), (0, -2), (2, 0), (-2, 0)}"
    by (cases d) simp_all
  from turns face records moves fwd bwd offs show ?thesis by blast
qed

lemma fresh_handler_built:
  "MiroHandler 5 \<lparr>xpos = 1, ypos = 3, direction = East\<rparr> = Inr fresh_handler"
  by (simp add: MiroHandler_def generate_world_map_def list_times_def grid_set_def getitem_def
      setitem_def py_index_def fresh_handler_def eval_nat_numeral upt_rec)

theorem turn_to_face_minimal_witness:
  "direction (current_postion (fold do_turn [TurnRight, TurnRight] fresh_handler)) = West
   \<and> West = left_of (left_of (direction (current_postion fresh_handler)))
   \<and> turn_to_face_calls fresh_handler West = Inr [TurnLeft, TurnLeft]
   \<and> length [TurnLeft, TurnLeft] \<le> length [TurnRight, TurnRight]"
proof -
  have reach: "direction (current_postion (fold do_turn [TurnRight, TurnRight] fresh_handler)) = West"
    by (simp add: fresh_handler_def)
  have opposite: "West = left_of (left_of (direction (current_postion fresh_handler)))"
    by (simp add: fresh_handler_def)
  from turn_to_face_minimal [of fresh_handler West] obtain calls where
    calls: "turn_to_face_calls fresh_handler West = Inr calls"
    and two: "West = left_of (left_of (direction (current_postion fresh_handler)))
                \<longrightarrow> calls = [TurnLeft, TurnLeft]"
    and least: "\<forall>cs. direction (current_postion (fold do_turn cs fresh_handler)) = West
                \<longrightarrow> length calls \<le> length cs"
    by blast
  from two opposite have "calls = [TurnLeft, TurnLeft]" by blast
  with calls least reach opposite show ?thesis by blast
qed

theorem handler_operations_keep_coordinates_odd_witness:
  "odd (xpos (current_postion fresh_handler)) \<and> odd (ypos (current_postion fresh_handler))
   \<and> odd (xpos (current_postion (move_forward fresh_handler)))
   \<and> odd (ypos (current_postion (move_backward fresh_handler)))
   \<and> xpos (current_postion (move_forward fresh_handler)) = 3"
proof -
  have ox: "odd (xpos (current_postion fresh_handler))" by (simp add: fresh_handler_def)
  have oy: "odd (ypos (current_postion fresh_handler))" by (simp add: fresh_handler_def)
  have x3: "xpos (current_postion (move_forward fresh_handler)) = 3" by (simp add: fresh_handler_def)
  from handler_operations_keep_coordinates_odd [OF ox oy, of East True] ox oy x3
  show ?thesis by blast
qed

subsection \<open>Valid paths\<close>

lemma get_wall_in_direction_eq:
  "get_wall_in_direction h p d =
     grid_get (world_map h) (ypos p + off_y (handle_direction Walls d))
                            (xpos p + off_x (handle_direction Walls d))"
  by (simp add: get_wall_in_direction_def Let_def)

lemma get_cell_in_direction_eq:
  "get_cell_in_direction h p d =
     grid_get (world_map h) (ypos p + off_y (handle_direction Cells d))
                            (xpos p + off_x (handle_direction Cells d))"
  by (simp add: get_cell_in_direction_def Let_def)

lemma check_valid_path_eq:
  "check_valid_path h d =
     (case get_wall_in_direction h (current_postion h) d of
        Inl e \<Rightarrow> Inl e
      | Inr w \<Rightarrow>
          if truthy w then Inr False
          else (case get_cell_in_direction h (current_postion h) d of
                  Inl e \<Rightarrow> Inl e
                | Inr c \<Rightarrow> Inr (c \<noteq> PIT)))"
  by (auto simp: check_valid_path_def get_cell_in_direction_eq Let_def split: sum.splits)

text \<open>
  C1 as stated fails: on the freshly built grid the wall segment east of the start is
  still unknown, and \<open>check_valid_path\<close> answers \<open>True\<close> for it.
\<close>

theorem check_valid_path_unknown_wall_open:
  "get_wall_in_direction fresh_handler (current_postion fresh_handler) East = Inr PyNone
   \<and> check_valid_path fresh_handler East = Inr True"
  by (simp add: check_valid_path_eq get_wall_in_direction_eq get_cell_in_direction_eq
      fresh_handler_def grid_get_def getitem_def py_index_def)

text \<open>
  C1, amended. Where the wall-segment slot holds one of its three values,
  \<open>check_valid_path\<close> returns \<open>True\<close> exactly when that slot is not a recorded wall
  (it is \<open>NO_WALL\<close> or still unknown) and the neighbouring cell slot can be read and is
  not \<open>PIT\<close>; a recorded wall gives \<open>False\<close> without the cell being read. Under the
  method's stated assumption that the adjacent slots are recorded, this is: no wall and
  no pit.
\<close>

theorem check_valid_path_iff:
  assumes "get_wall_in_direction h (current_postion h) d = Inr w"
    and "w \<in> {PyNone, NO_WALL, WALL}"
  shows "(check_valid_path h d = Inr True \<longleftrightarrow>
            (w = NO_WALL \<or> w = PyNone)
            \<and> (\<exists>c. get_cell_in_direction h (current_postion h) d = Inr c \<and> c \<noteq> PIT))
       \<and> (w = WALL \<longrightarrow> check_valid_path h d = Inr False)
       \<and> (w \<noteq> PyNone \<longrightarrow>
            (check_valid_path h d = Inr True \<longleftrightarrow>
               w = NO_WALL
               \<and> (\<exists>c. get_cell_in_direction h (current_postion h) d = Inr c \<and> c \<noteq> PIT)))"
  using assms by (auto simp: check_valid_path_eq split: sum.splits)

theorem check_valid_path_iff_witness:
  "get_wall_in_direction dead_end_handler (current_postion dead_end_handler) South = Inr NO_WALL
   \<and> NO_WALL \<in> {PyNone, NO_WALL, WALL}
   \<and> check_valid_path dead_end_handler South = Inr True
   \<and> get_cell_in_direction dead_end_handler (current_postion dead_end_handler) South = Inr CELL"
proof -
  have wall: "get_wall_in_direction dead_end_handler (current_postion dead_end_handler) South
                = Inr NO_WALL"
    by (simp add: get_wall_in_direction_eq dead_end_handler_def grid_get_def getitem_def
        py_index_def)
  have val: "NO_WALL \<in> {PyNone, NO_WALL, WALL}" by simp
  have cell: "get_cell_in_direction dead_end_handler (current_postion dead_end_handler) South
                = Inr CELL"
    by (simp add: get_cell_in_direction_eq dead_end_handler_def grid_get_def getitem_def
        py_index_def)
  from check_valid_path_iff [OF wall val] cell wall val show ?thesis by simp
qed

subsection \<open>The dictionary of find_best_direction\<close>

lemma dict_store_map_of: "map_of (dict_store dct k v) = (map_of dct)(k \<mapsto> v)"
proof (cases "k \<in> set (map fst dct)")
  case True
  have "map_of (map (\<lambda>(k', v'). if k' = k then (k', v) else (k', v')) dct) k'
          = (if k' = k \<and> k \<in> set (map fst dct) then Some v else map_of dct k')" for k'
    by (induction dct) (auto simp: rev_image_eqI)
  with True show ?thesis by (auto simp: dict_store_def fun_eq_iff)
next
  case False
  then have "map_of dct k = None" by (simp add: map_of_eq_None_iff)
  with False show ?thesis
    by (auto simp: dict_store_def fun_eq_iff map_add_def split: option.splits)
qed

lemma dict_lookup_iff: "dict_lookup dct k = Inr l \<longleftrightarrow> map_of dct k = Some l"
  by (simp add: dict_lookup_def split: option.splits)

lemma dict_keys_dom: "set (map fst dct) = dom (map_of dct)"
  by (simp add: dom_map_of_conv_image_fst)

lemma fold_max_Max: "fold max ks (k::nat) = Max (set (k # ks))"
  by (rule Max.set_eq_fold [symmetric])

lemma dict_max_empty: "dict_max [] = Inl ValueError"
  by (simp add: dict_max_def)

lemma dict_max_value:
  "dct \<noteq> [] \<Longrightarrow> dict_max dct = Inr (Max (dom (map_of dct)))"
proof -
  assume "dct \<noteq> []"
  then obtain p rest where dct: "dct = p # rest" by (cases dct) auto
  have "dict_max dct = Inr (Max (set (map fst dct)))"
    unfolding dct dict_max_def by (simp add: fold_max_Max)
  then show ?thesis by (simp only: dict_keys_dom)
qed

lemma dict_add_map_of:
  "map_of (dict_add dct k d) =
     (map_of dct)(k \<mapsto> (case map_of dct k of None \<Rightarrow> [] | Some l \<Rightarrow> l) @ [d])"
  by (simp add: dict_add_def dict_store_map_of)

lemma find_best_loop_Cons:
  "find_best_loop h (d # ds) dct =
     (case check_valid_path h d of
        Inl e \<Rightarrow> Inl e
      | Inr valid \<Rightarrow>
          if valid then
            (case unexplored_score h d of
               Inl e \<Rightarrow> Inl e
             | Inr n \<Rightarrow> find_best_loop h ds (dict_add dct n d))
          else find_best_loop h ds dct)"
proof (cases "check_valid_path h d")
  case (Inl e)
  then show ?thesis by simp
next
  case (Inr valid)
  show ?thesis
  proof (cases valid)
    case False
    with Inr show ?thesis by simp
  next
    case True
    show ?thesis
    proof (cases "unexplored_score h d")
      case (Inl e)
      with Inr True show ?thesis
        by (simp add: unexplored_score_def neighbour_cell_def Let_def)
    next
      case score: (Inr n)
      show ?thesis
      proof (cases "n \<in> set (map fst dct)")
        case present: True
        then obtain l where "map_of dct n = Some l"
          by (cases "map_of dct n") (auto simp: map_of_eq_None_iff)
        with Inr True score present show ?thesis
          by (simp add: unexplored_score_def neighbour_cell_def Let_def dict_lookup_def
              dict_add_def)
      next
        case absent: False
        then have "map_of dct n = None" by (simp add: map_of_eq_None_iff)
        with Inr True score absent show ?thesis
          by (simp add: unexplored_score_def neighbour_cell_def Let_def dict_lookup_def
              dict_add_def dict_store_map_of)
      qed
    qed
  qed
qed

declare find_best_loop.simps(2) [simp del]

lemma find_best_loop_map:
  "find_best_loop h ds dct = Inr dct' \<Longrightarrow>
   map_of dct' k =
     (let new = filter (\<lambda>d. check_valid_path h d = Inr True \<and> unexplored_score h d = Inr k) ds
      in if new = [] then map_of dct k
         else Some ((case map_of dct k of None \<Rightarrow> [] | Some l \<Rightarrow> l) @ new))"
proof (induction ds arbitrary: dct)
  case Nil
  then show ?case by simp
next
  case (Cons d ds)
  show ?case
  proof (cases "check_valid_path h d")
    case (Inl e)
    with Cons.prems show ?thesis by (simp add: find_best_loop_Cons)
  next
    case (Inr valid)
    show ?thesis
    proof (cases valid)
      case False
      with Inr Cons.prems have "find_best_loop h ds dct = Inr dct'"
        by (simp add: find_best_loop_Cons)
      from Cons.IH [OF this] Inr False show ?thesis by simp
    next
      case True
      show ?thesis
      proof (cases "unexplored_score h d")
        case (Inl e)
        with Inr True Cons.prems show ?thesis by (simp add: find_best_loop_Cons)
      next
        case score: (Inr n)
        with Inr True Cons.prems have "find_best_loop h ds (dict_add dct n d) = Inr dct'"
          by (simp add: find_best_loop_Cons)
        from Cons.IH [OF this] Inr True score show ?thesis
          by (auto simp: dict_add_map_of Let_def split: option.splits)
      qed
    qed
  qed
qed

lemma find_best_loop_no_error:
  "find_best_loop h ds dct = Inr dct' \<Longrightarrow> d \<in> set ds \<Longrightarrow>
   (\<exists>b. check_valid_path h d = Inr b)
   \<and> (check_valid_path h d = Inr True \<longrightarrow> (\<exists>n. unexplored_score h d = Inr n))"
proof (induction ds arbitrary: dct)
  case Nil
  then show ?case by simp
next
  case (Cons a ds)
  from Cons.prems(1) obtain b where b: "check_valid_path h a = Inr b"
    by (cases "check_valid_path h a") (simp_all add: find_best_loop_Cons)
  show ?case
  proof (cases b)
    case False
    with b Cons.prems(1) have rest: "find_best_loop h ds dct = Inr dct'"
      by (simp add: find_best_loop_Cons)
    show ?thesis
    proof (cases "d = a")
      case True
      with b False show ?thesis by auto
    next
      case neq: False
      with Cons.prems(2) have "d \<in> set ds" by simp
      from Cons.IH [OF rest this] show ?thesis .
    qed
  next
    case True
    with b Cons.prems(1) obtain n where n: "unexplored_score h a = Inr n"
      by (cases "unexplored_score h a") (simp_all add: find_best_loop_Cons)
    with b True Cons.prems(1) have rest: "find_best_loop h ds (dict_add dct n a) = Inr dct'"
      by (simp add: find_best_loop_Cons)
    show ?thesis
    proof (cases "d = a")
      case True
      with b n show ?thesis by auto
    next
      case neq: False
      with Cons.prems(2) have "d \<in> set ds" by simp
      from Cons.IH [OF rest this] show ?thesis .
    qed
  qed
qed

lemma find_best_loop_total:
  "\<forall>d \<in> set ds. (\<exists>b. check_valid_path h d = Inr b)
      \<and> (check_valid_path h d = Inr True \<longrightarrow> (\<exists>n. unexplored_score h d = Inr n)) \<Longrightarrow>
   \<exists>dct'. find_best_loop h ds dct = Inr dct'"
proof (induction ds arbitrary: dct)
  case Nil
  then show ?case by simp
next
  case (Cons a ds)
  then obtain b where b: "check_valid_path h a = Inr b" by auto
  from Cons.prems have rest: "\<forall>d \<in> set ds. (\<exists>b. check_valid_path h d = Inr b)
      \<and> (check_valid_path h d = Inr True \<longrightarrow> (\<exists>n. unexplored_score h d = Inr n))"
    by simp
  show ?case
  proof (cases b)
    case False
    with b Cons.IH [OF rest, of dct] show ?thesis by (simp add: find_best_loop_Cons)
  next
    case True
    with b Cons.prems obtain n where "unexplored_score h a = Inr n" by auto
    with b True Cons.IH [OF rest, of "dict_add dct n a"] show ?thesis
      by (simp add: find_best_loop_Cons)
  qed
qed

lemma find_best_loop_none_valid:
  "\<forall>d \<in> set ds. check_valid_path h d = Inr False \<Longrightarrow> find_best_loop h ds dct = Inr dct"
  by (induction ds) (simp_all add: find_best_loop_Cons)

subsection \<open>The choice of find_best_direction\<close>

lemma getitem_zero: "getitem l 0 = Inr d \<longleftrightarrow> l \<noteq> [] \<and> d = hd l"
  by (cases l) (auto simp: getitem_def py_index_def)

lemma hd_filter_first:
  "filter P xs \<noteq> [] \<Longrightarrow>
   \<exists>i<length xs. hd (filter P xs) = xs ! i \<and> P (xs ! i) \<and> (\<forall>j<i. \<not> P (xs ! j))"
proof (induction xs)
  case Nil
  then show ?case by simp
next
  case (Cons a xs)
  show ?case
  proof (cases "P a")
    case True
    then have "0 < length (a # xs) \<and> hd (filter P (a # xs)) = (a # xs) ! 0
        \<and> P ((a # xs) ! 0) \<and> (\<forall>j<0. \<not> P ((a # xs) ! j))"
      by simp
    then show ?thesis by blast
  next
    case False
    with Cons.prems have "filter P xs \<noteq> []" by simp
    from Cons.IH [OF this] obtain i where i: "i < length xs" "hd (filter P xs) = xs ! i"
      "P (xs ! i)" "\<forall>j<i. \<not> P (xs ! j)"
      by blast
    have "\<forall>j<Suc i. \<not> P ((a # xs) ! j)"
    proof (intro allI impI)
      fix j assume "j < Suc i"
      with False i(4) show "\<not> P ((a # xs) ! j)" by (cases j) simp_all
    qed
    with False i have "Suc i < length (a # xs) \<and> hd (filter P (a # xs)) = (a # xs) ! Suc i
        \<and> P ((a # xs) ! Suc i) \<and> (\<forall>j<Suc i. \<not> P ((a # xs) ! j))"
      by simp
    then show ?thesis by blast
  qed
qed

text \<open>What \<open>find_best_direction\<close> returns when it returns: the head of the list of valid
  enumerated directions with the greatest count.\<close>

lemma find_best_direction_result:
  assumes "find_best_direction h = Inr d"
  shows "\<exists>k. filter (\<lambda>d. check_valid_path h d = Inr True \<and> unexplored_score h d = Inr k)
               (generate_direction_priority h None) \<noteq> []
           \<and> d = hd (filter (\<lambda>d. check_valid_path h d = Inr True \<and> unexplored_score h d = Inr k)
                       (generate_direction_priority h None))
           \<and> (\<forall>k'. filter (\<lambda>d. check_valid_path h d = Inr True \<and> unexplored_score h d = Inr k')
                       (generate_direction_priority h None) \<noteq> [] \<longrightarrow> k' \<le> k)"
proof -
  let ?prio = "generate_direction_priority h None"
  let ?cand = "\<lambda>k. filter (\<lambda>d. check_valid_path h d = Inr True \<and> unexplored_score h d = Inr k) ?prio"
  from assms obtain dct where loop: "find_best_loop h ?prio [] = Inr dct"
    by (cases "find_best_loop h ?prio []") (simp_all add: find_best_direction_def)
  have m: "map_of dct k = (if ?cand k = [] then None else Some (?cand k))" for k
    using find_best_loop_map [OF loop, of k] by (simp add: Let_def)
  from assms loop have ne: "dct \<noteq> []"
    by (auto simp: find_best_direction_def dict_max_empty)
  let ?k = "Max (dom (map_of dct))"
  have fin: "finite (dom (map_of dct))" by (rule finite_dom_map_of)
  from ne have dne: "dom (map_of dct) \<noteq> {}"
    by (cases dct) (auto simp: dom_map_of_conv_image_fst)
  from fin dne have kin: "?k \<in> dom (map_of dct)" by (rule Max_in)
  with m [of ?k] have ck: "?cand ?k \<noteq> []" and mk: "map_of dct ?k = Some (?cand ?k)"
    by (auto split: if_splits)
  from assms loop ne mk have "getitem (?cand ?k) 0 = Inr d"
    by (simp add: find_best_direction_def dict_max_value dict_lookup_def)
  then have d: "d = hd (?cand ?k)" by (simp add: getitem_zero)
  have "k' \<le> ?k" if "?cand k' \<noteq> []" for k'
  proof -
    from that m [of k'] have "k' \<in> dom (map_of dct)" by auto
    with fin show ?thesis by (rule Max_ge)
  qed
  with ck d show ?thesis by blast
qed

text \<open>
  C8. When every enumerated direction is refused by \<open>check_valid_path\<close>,
  \<open>find_best_direction\<close> raises ValueError (\<open>max\<close> of the empty dictionary); the
  decide step of the loop then stops in the failed state with the handler, grid and pose,
  exactly as it was.
\<close>

theorem find_best_direction_stuck:
  assumes "\<forall>d \<in> set (generate_direction_priority h None). check_valid_path h d = Inr False"
  shows "find_best_direction h = Inl ValueError
       \<and> step sim (h, Decide) = (h, Failed ValueError)"
proof -
  from assms have "find_best_loop h (generate_direction_priority h None) [] = Inr []"
    by (rule find_best_loop_none_valid)
  then have "find_best_direction h = Inl ValueError"
    by (simp add: find_best_direction_def dict_max_empty)
  then show ?thesis by simp
qed

theorem find_best_direction_stuck_witness:
  "map (check_valid_path dead_end_handler) (generate_direction_priority dead_end_handler None)
     = [Inr False, Inr False, Inr False, Inr False]
   \<and> find_best_direction dead_end_handler = Inl ValueError"
proof -
  have prio: "generate_direction_priority dead_end_handler None = [North, West, East, West]"
    by (simp add: generate_direction_priority_def dead_end_handler_def)
  have checks: "check_valid_path dead_end_handler North = Inr False"
    "check_valid_path dead_end_handler West = Inr False"
    "check_valid_path dead_end_handler East = Inr False"
    by (simp_all add: check_valid_path_eq get_wall_in_direction_eq dead_end_handler_def
        grid_get_def getitem_def py_index_def)
  with prio have all: "\<forall>d \<in> set (generate_direction_priority dead_end_handler None).
       check_valid_path dead_end_handler d = Inr False"
    by simp
  from find_best_direction_stuck [OF all] prio checks show ?thesis by simp
qed

text \<open>The part of the tie-break rule that holds on the code: over the enumerated
  sequence, \<open>find_best_direction\<close> is a stable maximum. If no check raises and some
  enumerated direction is valid, it returns the earliest enumerated valid direction
  whose count is greatest.\<close>

lemma find_best_direction_stable_max:
  assumes ok: "\<forall>d \<in> set (generate_direction_priority h None).
            (\<exists>b. check_valid_path h d = Inr b)
          \<and> (check_valid_path h d = Inr True \<longrightarrow> (\<exists>n. unexplored_score h d = Inr n))"
    and some: "\<exists>d \<in> set (generate_direction_priority h None). check_valid_path h d = Inr True"
  shows "\<exists>i n. i < length (generate_direction_priority h None)
       \<and> find_best_direction h = Inr (generate_direction_priority h None ! i)
       \<and> check_valid_path h (generate_direction_priority h None ! i) = Inr True
       \<and> unexplored_score h (generate_direction_priority h None ! i) = Inr n
       \<and> (\<forall>j m. j < length (generate_direction_priority h None)
             \<and> check_valid_path h (generate_direction_priority h None ! j) = Inr True
             \<and> unexplored_score h (generate_direction_priority h None ! j) = Inr m
             \<longrightarrow> m \<le> n \<and> (j < i \<longrightarrow> m < n))"
proof -
  let ?prio = "generate_direction_priority h None"
  let ?P = "\<lambda>k d. check_valid_path h d = Inr True \<and> unexplored_score h d = Inr k"
  from find_best_loop_total [OF ok, of "[]"] obtain dct where
    loop: "find_best_loop h ?prio [] = Inr dct" by blast
  have m: "map_of dct k = (if filter (?P k) ?prio = [] then None else Some (filter (?P k) ?prio))" for k
    using find_best_loop_map [OF loop, of k] by (simp add: Let_def)
  from some ok obtain d0 n0 where d0: "d0 \<in> set ?prio" "?P n0 d0" by blast
  then have "filter (?P n0) ?prio \<noteq> []"
    by (auto simp: filter_empty_conv)
  with m [of n0] have "map_of dct n0 \<noteq> None" by simp
  then have ne: "dct \<noteq> []" by auto
  let ?k = "Max (dom (map_of dct))"
  have fin: "finite (dom (map_of dct))" by (rule finite_dom_map_of)
  from ne have "dom (map_of dct) \<noteq> {}"
    by (cases dct) (auto simp: dom_map_of_conv_image_fst)
  with fin have "?k \<in> dom (map_of dct)" by (rule Max_in)
  with m [of ?k] have ck: "filter (?P ?k) ?prio \<noteq> []"
    and mk: "map_of dct ?k = Some (filter (?P ?k) ?prio)"
    by (auto split: if_splits)
  from loop ne mk ck have res: "find_best_direction h = Inr (hd (filter (?P ?k) ?prio))"
    by (simp add: find_best_direction_def dict_max_value dict_lookup_def getitem_zero)
  from hd_filter_first [OF ck] obtain i where
    i: "i < length ?prio" "hd (filter (?P ?k) ?prio) = ?prio ! i" "?P ?k (?prio ! i)"
      "\<forall>j<i. \<not> ?P ?k (?prio ! j)"
    by blast
  have best: "m' \<le> ?k \<and> (j < i \<longrightarrow> m' < ?k)"
    if j: "j < length ?prio" "?P m' (?prio ! j)" for j m'
  proof -
    from j have "?prio ! j \<in> set (filter (?P m') ?prio)" by simp
    then have "filter (?P m') ?prio \<noteq> []" by (metis empty_iff empty_set)
    with m [of m'] have "m' \<in> dom (map_of dct)" by auto
    with fin have le: "m' \<le> ?k" by (rule Max_ge)
    have "m' \<noteq> ?k" if "j < i"
      using i(4) that j(2) by blast
    with le show ?thesis by (cases "j < i") simp_all
  qed
  from res i(2) have r: "find_best_direction h = Inr (?prio ! i)" by simp
  from i(3) have v: "check_valid_path h (?prio ! i) = Inr True"
    and sc: "unexplored_score h (?prio ! i) = Inr ?k"
    by simp_all
  from best have all: "\<forall>j m. j < length ?prio
             \<and> check_valid_path h (?prio ! j) = Inr True
             \<and> unexplored_score h (?prio ! j) = Inr m
             \<longrightarrow> m \<le> ?k \<and> (j < i \<longrightarrow> m < ?k)"
    by blast
  show ?thesis
    apply (rule exI [of _ i])
    apply (rule exI [of _ ?k])
    apply (intro conjI)
        apply (rule i(1))
       apply (rule r)
      apply (rule v)
     apply (rule sc)
    apply (rule all)
    done
qed

lemma dead_end_run: "explore 11 2 dead_end_map = Inr (dead_end_handler, Decide)"
  by code_simp

text \<open>
  C5 fails on the code for the same reason as C2. In the dead end of \<open>dead_end_map\<close>
  the loop reaches its decide step facing east with the way south open and valid; south
  is \<open>right_of\<close> the facing, which the pathfinding order never enumerates, and
  \<open>find_best_direction\<close> raises ValueError instead of returning south.
\<close>

theorem find_best_direction_misses_open_south:
  "explore 11 2 dead_end_map = Inr (dead_end_handler, Decide)
   \<and> check_valid_path dead_end_handler South = Inr True
   \<and> South \<notin> set (generate_direction_priority dead_end_handler None)
   \<and> find_best_direction dead_end_handler = Inl ValueError"
proof -
  note dead_end_run
  moreover have "check_valid_path dead_end_handler South = Inr True"
    by code_simp
  moreover have "South \<notin> set (generate_direction_priority dead_end_handler None)"
    by code_simp
  moreover have "find_best_direction dead_end_handler = Inl ValueError"
    by code_simp
  ultimately show ?thesis by blast
qed

subsection \<open>Runs on the example mazes\<close>

lemma run_add: "run (k + m) sim s = run m sim (run k sim s)"
  by (induction m) simp_all

lemma run_Failed: "run k sim s = (h, Failed e) \<Longrightarrow> run (k + m) sim s = (h, Failed e)"
  by (induction m) simp_all

lemma run_GoalFound: "run k sim s = (h, GoalFound) \<Longrightarrow> run (k + m) sim s = (h, GoalFound)"
  by (induction m) simp_all

lemma single_cell_initial:
  "initial_state 1 = Inr (single_cell_handler, Scan [East, North, West, South])"
  by code_simp

text \<open>
  C4 as stated fails: on the 1 by 1 maze with the treasure in the start cell the first
  scan phase runs through its four directions without reaching \<open>GoalFound\<close>, the loop
  enters its decide step, and the run ends with an exception.
\<close>

theorem single_cell_scan_finds_no_goal:
  "explore 4 1 single_cell_map = Inr (single_cell_handler, Scan [])
   \<and> explore 5 1 single_cell_map = Inr (single_cell_handler, Decide)
   \<and> explore 6 1 single_cell_map = Inr (single_cell_handler, Failed ValueError)"
proof -
  have "explore 4 1 single_cell_map = Inr (single_cell_handler, Scan [])"
    by code_simp
  moreover have "explore 5 1 single_cell_map = Inr (single_cell_handler, Decide)"
    by code_simp
  moreover have "explore 6 1 single_cell_map = Inr (single_cell_handler, Failed ValueError)"
    by code_simp
  ultimately show ?thesis by blast
qed

text \<open>
  C4, amended. On the 1 by 1 maze whose single cell holds the treasure and is the start
  cell, all four directions are already recorded (they are the boundary walls), so the
  first scan phase asks the simulation nothing, leaves the handler as it was and does not
  reach \<open>GoalFound\<close>: the treasure is only ever looked for in the cell ahead. The loop
  goes on to its decide step, where no direction is open and \<open>find_best_direction\<close>
  raises; the run stays in that failed state and never reaches \<open>GoalFound\<close>.
\<close>

theorem single_cell_run:
  "map (\<lambda>k. explore k 1 single_cell_map) [0, 1, 2, 3, 4, 5] =
     [Inr (single_cell_handler, Scan [East, North, West, South]),
      Inr (single_cell_handler, Scan [North, West, South]),
      Inr (single_cell_handler, Scan [West, South]),
      Inr (single_cell_handler, Scan [South]),
      Inr (single_cell_handler, Scan []),
      Inr (single_cell_handler, Decide)]
   \<and> map (direction_recorded single_cell_handler) [East, North, West, South] =
       [Inr True, Inr True, Inr True, Inr True]
   \<and> explore (6 + k) 1 single_cell_map = Inr (single_cell_handler, Failed ValueError)
   \<and> explore n 1 single_cell_map \<noteq> Inr (h, GoalFound)"
proof -
  let ?sim = "generate_world_map_from_file single_cell_map"
  let ?s0 = "(single_cell_handler, Scan [East, North, West, South])"
  have ex: "explore j 1 single_cell_map = Inr (run j ?sim ?s0)" for j
    by (simp add: explore_def single_cell_initial)
  have r0: "run 0 ?sim ?s0 = ?s0" by simp
  have r1: "run 1 ?sim ?s0 = (single_cell_handler, Scan [North, West, South])" by code_simp
  have r2: "run 2 ?sim ?s0 = (single_cell_handler, Scan [West, South])" by code_simp
  have r3: "run 3 ?sim ?s0 = (single_cell_handler, Scan [South])" by code_simp
  have r4: "run 4 ?sim ?s0 = (single_cell_handler, Scan [])" by code_simp
  have r5: "run 5 ?sim ?s0 = (single_cell_handler, Decide)" by code_simp
  have r6: "run 6 ?sim ?s0 = (single_cell_handler, Failed ValueError)" by code_simp
  have late: "run (6 + k) ?sim ?s0 = (single_cell_handler, Failed ValueError)" for k
    using run_Failed [OF r6] .
  have first: "map (\<lambda>k. explore k 1 single_cell_map) [0, 1, 2, 3, 4, 5] =
     [Inr (single_cell_handler, Scan [East, North, West, South]),
      Inr (single_cell_handler, Scan [North, West, South]),
      Inr (single_cell_handler, Scan [West, South]),
      Inr (single_cell_handler, Scan [South]),
      Inr (single_cell_handler, Scan []),
      Inr (single_cell_handler, Decide)]"
    by (simp only: list.map ex r0 r1 r2 r3 r4 r5)
  have rec: "map (direction_recorded single_cell_handler) [East, North, West, South] =
       [Inr True, Inr True, Inr True, Inr True]"
    by code_simp
  have never: "run n ?sim ?s0 \<noteq> (h, GoalFound)"
  proof (cases "n < 6")
    case True
    then consider "n = 0" | "n = 1" | "n = 2" | "n = 3" | "n = 4" | "n = 5" by linarith
    then show ?thesis
      using r0 r1 r2 r3 r4 r5 by cases simp_all
  next
    case False
    then have "n = 6 + (n - 6)" by simp
    with late [of "n - 6"] show ?thesis by simp
  qed
  from first rec late [of k] never show ?thesis
    by (simp only: ex) simp
qed

subsection \<open>Reading and writing inside a square grid\<close>

lemma py_index_in_grid: "0 \<le> i \<Longrightarrow> i < int n \<Longrightarrow> py_index n i = Some (nat i)"
  by (simp add: py_index_def)

lemma grid_get_in_grid:
  assumes "grid_shape n m" "in_grid n i" "in_grid n j"
  shows "grid_get m i j = Inr (m ! nat i ! nat j)"
proof -
  from assms have i: "nat i < length m" by (auto simp: grid_shape_def in_grid_def)
  then have "m ! nat i \<in> set m" by simp
  with assms have len: "int (length (m ! nat i)) = n" by (auto simp: grid_shape_def)
  from assms i len show ?thesis
    by (simp add: grid_get_def getitem_def py_index_in_grid grid_shape_def in_grid_def)
qed

lemma grid_set_in_grid:
  assumes "grid_shape n m" "in_grid n i" "in_grid n j"
  shows "grid_set m i j v = Inr (m[nat i := (m ! nat i)[nat j := v]])"
proof -
  from assms have i: "nat i < length m" by (auto simp: grid_shape_def in_grid_def)
  then have "m ! nat i \<in> set m" by simp
  with assms have len: "int (length (m ! nat i)) = n" by (auto simp: grid_shape_def)
  from assms i len show ?thesis
    by (simp add: grid_set_def getitem_def setitem_def py_index_in_grid grid_shape_def in_grid_def)
qed

lemma grid_shape_update:
  assumes "grid_shape n m" "in_grid n i"
  shows "grid_shape n (m[nat i := (m ! nat i)[nat j := v]])"
proof -
  from assms have i: "nat i < length m" by (auto simp: grid_shape_def in_grid_def)
  then have "m ! nat i \<in> set m" by simp
  with assms have len: "int (length (m ! nat i)) = n" by (auto simp: grid_shape_def)
  have "int (length row) = n" if "row \<in> set (m[nat i := (m ! nat i)[nat j := v]])" for row
  proof -
    from that have "row \<in> insert ((m ! nat i)[nat j := v]) (set m)"
      using set_update_subset_insert by fastforce
    with len assms(1) show ?thesis by (auto simp: grid_shape_def)
  qed
  with assms(1) show ?thesis by (simp add: grid_shape_def)
qed

text \<open>A write inside the grid succeeds, keeps the shape, and is seen by exactly the slot
  written.\<close>

lemma grid_set_effect:
  assumes shape: "grid_shape n m" and i: "in_grid n i" and j: "in_grid n j"
  obtains m' where "grid_set m i j v = Inr m'" and "grid_shape n m'"
    and "\<And>i' j'. in_grid n i' \<Longrightarrow> in_grid n j' \<Longrightarrow>
           grid_get m' i' j' = (if i' = i \<and> j' = j then Inr v else grid_get m i' j')"
proof -
  let ?m' = "m[nat i := (m ! nat i)[nat j := v]]"
  have set: "grid_set m i j v = Inr ?m'" by (rule grid_set_in_grid [OF shape i j])
  have shape': "grid_shape n ?m'" by (rule grid_shape_update [OF shape i])
  from shape i have li: "nat i < length m" by (auto simp: grid_shape_def in_grid_def)
  then have "m ! nat i \<in> set m" by simp
  with shape have len: "int (length (m ! nat i)) = n" by (auto simp: grid_shape_def)
  have get: "grid_get ?m' i' j' = (if i' = i \<and> j' = j then Inr v else grid_get m i' j')"
    if i': "in_grid n i'" and j': "in_grid n j'" for i' j'
  proof -
    from shape i' have li': "nat i' < length m" by (auto simp: grid_shape_def in_grid_def)
    from len j have lj: "nat j < length (m ! nat i)" by (auto simp: in_grid_def)
    have "?m' ! nat i' ! nat j' = (if i' = i \<and> j' = j then v else m ! nat i' ! nat j')"
    proof (cases "i' = i")
      case True
      with li lj j j' show ?thesis
        by (auto simp: in_grid_def nth_list_update)
    next
      case False
      with i i' have "nat i' \<noteq> nat i" by (auto simp: in_grid_def)
      with False show ?thesis by simp
    qed
    then show ?thesis
      by (simp add: grid_get_in_grid [OF shape' i' j'] grid_get_in_grid [OF shape i' j'])
  qed
  from set shape' get show ?thesis by (rule that)
qed

subsection \<open>Geometry of the doubled grid\<close>

lemma wall_slot_in_grid:
  assumes "interior n cx" "interior n cy"
  shows "in_grid n (cy + off_y (handle_direction Walls d))
       \<and> in_grid n (cx + off_x (handle_direction Walls d))"
  using assms by (cases d) (auto simp: interior_def in_grid_def)

lemma interior_in_grid: "interior n i \<Longrightarrow> in_grid n i"
  by (auto simp: interior_def in_grid_def)

lemma wall_slot_parity:
  assumes "odd cx" "odd cy"
  shows "\<not> (even (cy + off_y (handle_direction Walls d)) \<and> even (cx + off_x (handle_direction Walls d)))
       \<and> \<not> (odd (cy + off_y (handle_direction Walls d)) \<and> odd (cx + off_x (handle_direction Walls d)))"
  using assms by (cases d) auto

lemma odd_step_up: "odd (x::int) \<Longrightarrow> odd n \<Longrightarrow> x < n - 1 \<Longrightarrow> x + 1 \<noteq> n - 1 \<Longrightarrow> x + 2 < n - 1"
  by presburger

lemma odd_step_down: "odd (x::int) \<Longrightarrow> 0 < x \<Longrightarrow> x - 1 \<noteq> 0 \<Longrightarrow> 0 < x - 2"
  by presburger

text \<open>Behind a wall segment that is not a recorded wall lies a cell inside the ring: the
  segments of the ring itself are recorded walls.\<close>

lemma cell_slot_interior:
  assumes wf: "well_formed h"
    and cx: "interior (MAP_DIMENSIONS h) cx" and cy: "interior (MAP_DIMENSIONS h) cy"
    and wall: "grid_get (world_map h) (cy + off_y (handle_direction Walls d))
                 (cx + off_x (handle_direction Walls d)) \<noteq> Inr WALL"
  shows "interior (MAP_DIMENSIONS h) (cx + off_x (handle_direction Cells d))
       \<and> interior (MAP_DIMENSIONS h) (cy + off_y (handle_direction Cells d))"
proof -
  let ?n = "MAP_DIMENSIONS h"
  from wf have n: "odd ?n" "3 \<le> ?n" by (auto simp: well_formed_def)
  from wf have ring: "\<And>k. in_grid ?n k \<Longrightarrow> odd k \<Longrightarrow>
            grid_get (world_map h) 0 k = Inr WALL
          \<and> grid_get (world_map h) (?n - 1) k = Inr WALL
          \<and> grid_get (world_map h) k 0 = Inr WALL
          \<and> grid_get (world_map h) k (?n - 1) = Inr WALL"
    by (auto simp: well_formed_def)
  from cx cy have ox: "odd cx" and oy: "odd cy" and gx: "in_grid ?n cx" and gy: "in_grid ?n cy"
    by (auto simp: interior_def in_grid_def)
  show ?thesis
  proof (cases d)
    case North
    have "cy - 1 \<noteq> 0"
    proof
      assume eq: "cy - 1 = 0"
      from ring [OF gx ox] have "grid_get (world_map h) 0 cx = Inr WALL" by blast
      then have "grid_get (world_map h) (cy - 1) cx = Inr WALL" by (simp only: eq)
      with wall North show False by simp
    qed
    with cx cy oy North odd_step_down [of cy] show ?thesis by (simp add: interior_def)
  next
    case East
    have "cx + 1 \<noteq> ?n - 1"
    proof
      assume eq: "cx + 1 = ?n - 1"
      from ring [OF gy oy] have "grid_get (world_map h) cy (?n - 1) = Inr WALL" by blast
      then have "grid_get (world_map h) cy (cx + 1) = Inr WALL" by (simp only: eq)
      with wall East show False by simp
    qed
    with cx cy ox n East odd_step_up [of cx ?n] show ?thesis by (simp add: interior_def)
  next
    case South
    have "cy + 1 \<noteq> ?n - 1"
    proof
      assume eq: "cy + 1 = ?n - 1"
      from ring [OF gx ox] have "grid_get (world_map h) (?n - 1) cx = Inr WALL" by blast
      then have "grid_get (world_map h) (cy + 1) cx = Inr WALL" by (simp only: eq)
      with wall South show False by simp
    qed
    with cx cy oy n South odd_step_up [of cy ?n] show ?thesis by (simp add: interior_def)
  next
    case West
    have "cx - 1 \<noteq> 0"
    proof
      assume eq: "cx - 1 = 0"
      from ring [OF gy oy] have "grid_get (world_map h) cy 0 = Inr WALL" by blast
      then have "grid_get (world_map h) cy (cx - 1) = Inr WALL" by (simp only: eq)
      with wall West show False by simp
    qed
    with cx cy ox West odd_step_down [of cx] show ?thesis by (simp add: interior_def)
  qed
qed

text \<open>Two cells share a wall segment only as the two sides of it.\<close>

lemma wall_slot_shared:
  assumes "odd cx" "odd cy" "odd qx" "odd qy"
    and "cy + off_y (handle_direction Walls e) = qy + off_y (handle_direction Walls d)"
    and "cx + off_x (handle_direction Walls e) = qx + off_x (handle_direction Walls d)"
  shows "(cx = qx \<and> cy = qy \<and> e = d)
       \<or> (cx = qx + off_x (handle_direction Cells d) \<and> cy = qy + off_y (handle_direction Cells d)
          \<and> cx + off_x (handle_direction Cells e) = qx \<and> cy + off_y (handle_direction Cells e) = qy)"
  using assms by (cases d; cases e) (auto elim!: oddE)

lemma cell_step_not_zero:
  "off_x (handle_direction Cells d) \<noteq> 0 \<or> off_y (handle_direction Cells d) \<noteq> 0"
  by (cases d) simp_all

subsection \<open>What the invariants depend on\<close>

lemma wf_shape: "well_formed h \<Longrightarrow> grid_shape (MAP_DIMENSIONS h) (world_map h)"
  by (simp add: well_formed_def)

lemma wf_pos:
  "well_formed h \<Longrightarrow> interior (MAP_DIMENSIONS h) (xpos (current_postion h))
     \<and> interior (MAP_DIMENSIONS h) (ypos (current_postion h))"
  by (simp add: well_formed_def)

lemma well_formed_cong:
  assumes "MAP_DIMENSIONS h' = MAP_DIMENSIONS h" "world_map h' = world_map h"
    "xpos (current_postion h') = xpos (current_postion h)"
    "ypos (current_postion h') = ypos (current_postion h)"
  shows "well_formed h' = well_formed h"
  by (simp add: well_formed_def assms)

lemma consistent_cong:
  assumes "MAP_DIMENSIONS h' = MAP_DIMENSIONS h" "world_map h' = world_map h"
    "xpos (current_postion h') = xpos (current_postion h)"
    "ypos (current_postion h') = ypos (current_postion h)"
  shows "consistent sim h' = consistent sim h"
  by (simp add: consistent_def get_wall_in_direction_eq get_cell_in_direction_eq assms)

lemma direction_recorded_cong:
  assumes "world_map h' = world_map h"
    "xpos (current_postion h') = xpos (current_postion h)"
    "ypos (current_postion h') = ypos (current_postion h)"
  shows "direction_recorded h' d = direction_recorded h d"
proof -
  have w: "get_wall_in_direction h' (current_postion h') d = get_wall_in_direction h (current_postion h) d"
    by (simp add: get_wall_in_direction_eq assms)
  have c: "get_cell_in_direction h' (current_postion h') d = get_cell_in_direction h (current_postion h) d"
    by (simp add: get_cell_in_direction_eq assms)
  show ?thesis unfolding direction_recorded_def w c by (rule refl)
qed

text \<open>In a consistent state a direction is recorded exactly when its wall segment is.\<close>

lemma direction_recorded_value:
  assumes wf: "well_formed h" and con: "consistent sim h"
  shows "direction_recorded h d =
           Inr (get_wall_in_direction h (current_postion h) d \<noteq> Inr PyNone)"
proof -
  let ?n = "MAP_DIMENSIONS h" and ?p = "current_postion h"
  let ?wy = "ypos ?p + off_y (handle_direction Walls d)"
  let ?wx = "xpos ?p + off_x (handle_direction Walls d)"
  let ?ty = "ypos ?p + off_y (handle_direction Cells d)"
  let ?tx = "xpos ?p + off_x (handle_direction Cells d)"
  from wf_pos [OF wf] have px: "interior ?n (xpos ?p)" and py: "interior ?n (ypos ?p)"
    by simp_all
  from wall_slot_in_grid [OF px py, of d] have w: "in_grid ?n ?wy" "in_grid ?n ?wx"
    by simp_all
  have wall: "get_wall_in_direction h ?p d = Inr (world_map h ! nat ?wy ! nat ?wx)"
    by (simp add: get_wall_in_direction_eq grid_get_in_grid [OF wf_shape [OF wf] w])
  show ?thesis
  proof (cases "world_map h ! nat ?wy ! nat ?wx = NO_WALL")
    case False
    with wall show ?thesis by (simp add: direction_recorded_def)
  next
    case True
    with wall have open_wall: "grid_get (world_map h) ?wy ?wx = Inr NO_WALL"
      by (simp add: get_wall_in_direction_eq)
    then have "grid_get (world_map h) ?wy ?wx \<noteq> Inr WALL" by simp
    from cell_slot_interior [OF wf px py this]
    have t: "in_grid ?n ?ty" "in_grid ?n ?tx" by (simp_all add: interior_in_grid)
    have cell: "get_cell_in_direction h ?p d = Inr (world_map h ! nat ?ty ! nat ?tx)"
      by (simp add: get_cell_in_direction_eq grid_get_in_grid [OF wf_shape [OF wf] t])
    from con px py open_wall
    have "get_cell_in_direction h \<lparr>xpos = xpos ?p, ypos = ypos ?p\<rparr> d \<noteq> Inr PyNone"
      unfolding consistent_def get_wall_in_direction_eq by (auto simp del: handle_direction_simps)
    then have "get_cell_in_direction h ?p d \<noteq> Inr PyNone"
      by (simp add: get_cell_in_direction_eq)
    with wall cell True show ?thesis by (simp add: direction_recorded_def)
  qed
qed

subsection \<open>Writes that keep the structure and the knowledge\<close>

lemma write_keeps_well_formed:
  assumes wf: "well_formed h"
    and dims: "MAP_DIMENSIONS h' = MAP_DIMENSIONS h"
    and px: "xpos (current_postion h') = xpos (current_postion h)"
    and py: "ypos (current_postion h') = ypos (current_postion h)"
    and shape: "grid_shape (MAP_DIMENSIONS h) (world_map h')"
    and get: "\<And>i j. in_grid (MAP_DIMENSIONS h) i \<Longrightarrow> in_grid (MAP_DIMENSIONS h) j \<Longrightarrow>
           grid_get (world_map h') i j = (if i = a \<and> j = b then Inr v else grid_get (world_map h) i j)"
    and v: "v = PyInt 0 \<or> v = PyInt 1"
    and free: "grid_get (world_map h) a b = Inr PyNone
               \<or> (interior (MAP_DIMENSIONS h) a \<and> interior (MAP_DIMENSIONS h) b)"
  shows "well_formed h'"
proof -
  let ?n = "MAP_DIMENSIONS h"
  from wf have n: "3 \<le> ?n" "odd ?n" by (auto simp: well_formed_def)
  then have zero: "in_grid ?n 0" and last: "in_grid ?n (?n - 1)" by (auto simp: in_grid_def)
  from wf have ring: "\<And>k. in_grid ?n k \<Longrightarrow> odd k \<Longrightarrow>
            grid_get (world_map h) 0 k = Inr WALL
          \<and> grid_get (world_map h) (?n - 1) k = Inr WALL
          \<and> grid_get (world_map h) k 0 = Inr WALL
          \<and> grid_get (world_map h) k (?n - 1) = Inr WALL"
    by (auto simp: well_formed_def)
  from wf have sect: "\<And>i j. in_grid ?n i \<Longrightarrow> in_grid ?n j \<Longrightarrow> even i \<Longrightarrow> even j \<Longrightarrow>
            grid_get (world_map h) i j = Inr WALL_INTERSECTION"
    by (auto simp: well_formed_def)
  from wf have vals: "\<And>i j. in_grid ?n i \<Longrightarrow> in_grid ?n j \<Longrightarrow>
            grid_get (world_map h) i j \<in> {Inr PyNone, Inr (PyInt 0), Inr (PyInt 1), Inr WALL_INTERSECTION}"
    by (auto simp: well_formed_def)
  have same: "grid_get (world_map h') i j = grid_get (world_map h) i j"
    if ij: "in_grid ?n i" "in_grid ?n j" and known: "grid_get (world_map h) i j \<noteq> Inr PyNone"
      and edge: "\<not> (interior ?n i \<and> interior ?n j)" for i j
  proof -
    from free known edge have "\<not> (i = a \<and> j = b)" by blast
    with get [OF ij] show ?thesis by simp
  qed
  have not0: "\<not> interior ?n 0" and notlast: "\<not> interior ?n (?n - 1)"
    by (simp_all add: interior_def)
  have ring': "grid_get (world_map h') 0 k = Inr WALL
          \<and> grid_get (world_map h') (?n - 1) k = Inr WALL
          \<and> grid_get (world_map h') k 0 = Inr WALL
          \<and> grid_get (world_map h') k (?n - 1) = Inr WALL"
    if k: "in_grid ?n k" "odd k" for k
  proof -
    from ring [OF k] have r: "grid_get (world_map h) 0 k = Inr WALL"
      "grid_get (world_map h) (?n - 1) k = Inr WALL"
      "grid_get (world_map h) k 0 = Inr WALL"
      "grid_get (world_map h) k (?n - 1) = Inr WALL"
      by simp_all
    have "grid_get (world_map h') 0 k = grid_get (world_map h) 0 k"
      using zero k(1) r(1) not0 by (intro same) simp_all
    moreover have "grid_get (world_map h') (?n - 1) k = grid_get (world_map h) (?n - 1) k"
      using last k(1) r(2) notlast by (intro same) simp_all
    moreover have "grid_get (world_map h') k 0 = grid_get (world_map h) k 0"
      using zero k(1) r(3) not0 by (intro same) simp_all
    moreover have "grid_get (world_map h') k (?n - 1) = grid_get (world_map h) k (?n - 1)"
      using last k(1) r(4) notlast by (intro same) simp_all
    ultimately show ?thesis using r by simp
  qed
  have sect': "grid_get (world_map h') i j = Inr WALL_INTERSECTION"
    if ij: "in_grid ?n i" "in_grid ?n j" "even i" "even j" for i j
  proof -
    from sect [OF ij] have s: "grid_get (world_map h) i j = Inr WALL_INTERSECTION" .
    from ij(3) have "\<not> interior ?n i" by (simp add: interior_def)
    with s ij(1,2) have "grid_get (world_map h') i j = grid_get (world_map h) i j"
      by (intro same) simp_all
    with s show ?thesis by simp
  qed
  have vals': "grid_get (world_map h') i j \<in> {Inr PyNone, Inr (PyInt 0), Inr (PyInt 1), Inr WALL_INTERSECTION}"
    if ij: "in_grid ?n i" "in_grid ?n j" for i j
  proof (cases "i = a \<and> j = b")
    case True
    with get [OF ij] v show ?thesis by auto
  next
    case False
    with get [OF ij] vals [OF ij] show ?thesis by simp
  qed
  from wf have pos: "interior ?n (xpos (current_postion h))" "interior ?n (ypos (current_postion h))"
    by (auto simp: well_formed_def)
  from ring' have R: "\<forall>k. in_grid ?n k \<and> odd k \<longrightarrow>
            grid_get (world_map h') 0 k = Inr WALL
          \<and> grid_get (world_map h') (?n - 1) k = Inr WALL
          \<and> grid_get (world_map h') k 0 = Inr WALL
          \<and> grid_get (world_map h') k (?n - 1) = Inr WALL"
    by blast
  from sect' have S: "\<forall>i j. in_grid ?n i \<and> in_grid ?n j \<and> even i \<and> even j \<longrightarrow>
            grid_get (world_map h') i j = Inr WALL_INTERSECTION"
    by blast
  from vals' have V: "\<forall>i j. in_grid ?n i \<and> in_grid ?n j \<longrightarrow>
            grid_get (world_map h') i j \<in> {Inr PyNone, Inr (PyInt 0), Inr (PyInt 1), Inr WALL_INTERSECTION}"
    by blast
  from n shape pos R S V show ?thesis
    unfolding well_formed_def dims px py by (simp only: simp_thms)
qed

lemma write_keeps_knowledge:
  assumes get: "\<And>i j. in_grid n i \<Longrightarrow> in_grid n j \<Longrightarrow>
           grid_get m' i j = (if i = a \<and> j = b then Inr v else grid_get m i j)"
    and old: "grid_get m a b = Inr PyNone \<or> grid_get m a b = Inr v"
  shows "knowledge_kept n m m'"
  unfolding knowledge_kept_def using get old by auto

lemma knowledge_kept_refl: "knowledge_kept n m m"
  by (simp add: knowledge_kept_def)

lemma knowledge_kept_trans:
  "knowledge_kept n m m' \<Longrightarrow> knowledge_kept n m' m'' \<Longrightarrow> knowledge_kept n m m''"
  unfolding knowledge_kept_def by blast

text \<open>Recording the direction \<open>d\<close> keeps the knowledge consistent: the wall segment,
  unknown so far, becomes \<open>wv\<close>, and when it is open the cell behind it becomes what the
  simulation answers for it.\<close>

lemma consistent_after_recording:
  fixes h h' :: handler and d :: direction
  defines "wy \<equiv> ypos (current_postion h) + off_y (handle_direction Walls d)"
    and "wx \<equiv> xpos (current_postion h) + off_x (handle_direction Walls d)"
    and "ty \<equiv> ypos (current_postion h) + off_y (handle_direction Cells d)"
    and "tx \<equiv> xpos (current_postion h) + off_x (handle_direction Cells d)"
  assumes wf: "well_formed h" and con: "consistent sim h"
    and dims: "MAP_DIMENSIONS h' = MAP_DIMENSIONS h"
    and px: "xpos (current_postion h') = xpos (current_postion h)"
    and py: "ypos (current_postion h') = ypos (current_postion h)"
    and unk: "grid_get (world_map h) wy wx = Inr PyNone"
    and get: "\<And>i j. in_grid (MAP_DIMENSIONS h) i \<Longrightarrow> in_grid (MAP_DIMENSIONS h) j \<Longrightarrow>
           grid_get (world_map h') i j =
             (if i = ty \<and> j = tx \<and> opened then Inr c
              else if i = wy \<and> j = wx then Inr (if opened then NO_WALL else WALL)
              else grid_get (world_map h) i j)"
    and sim: "opened \<Longrightarrow> \<exists>sv. grid_get sim ty tx = Inr sv \<and> c = (if sv = PyInt 1 then PIT else CELL)"
  shows "consistent sim h'"
proof -
  let ?n = "MAP_DIMENSIONS h" and ?g = "world_map h" and ?g' = "world_map h'"
  let ?px = "xpos (current_postion h)" and ?py = "ypos (current_postion h)"
  from wf_pos [OF wf] have ipx: "interior ?n ?px" and ipy: "interior ?n ?py" by simp_all
  then have opx: "odd ?px" and opy: "odd ?py" by (simp_all add: interior_def)
  from wall_slot_in_grid [OF ipx ipy, of d] have w: "in_grid ?n wy" "in_grid ?n wx"
    by (simp_all add: wy_def wx_def)
  from wall_slot_parity [OF opx opy, of d] have wpar: "\<not> (odd wy \<and> odd wx)"
    by (simp add: wy_def wx_def)
  from unk have "grid_get ?g wy wx \<noteq> Inr WALL" by simp
  from cell_slot_interior [OF wf ipx ipy this [unfolded wy_def wx_def]]
  have it: "interior ?n tx" "interior ?n ty" by (simp_all add: tx_def ty_def)
  then have t: "in_grid ?n ty" "in_grid ?n tx" and tpar: "odd ty" "odd tx"
    by (simp_all add: interior_in_grid interior_def)
  from sim have cval: "opened \<Longrightarrow> c \<noteq> PyNone" by (auto split: if_splits)
  have cells: "grid_get ?g' i j = (if i = ty \<and> j = tx \<and> opened then Inr c else grid_get ?g i j)"
    if "in_grid ?n i" "in_grid ?n j" "odd i" "odd j" for i j
    using get [OF that(1,2)] that(3,4) wpar by auto
  have walls: "grid_get ?g' i j =
      (if i = wy \<and> j = wx then Inr (if opened then NO_WALL else WALL) else grid_get ?g i j)"
    if "in_grid ?n i" "in_grid ?n j" "\<not> (odd i \<and> odd j)" for i j
    using get [OF that(1,2)] that(3) tpar by auto
  have stays: "grid_get ?g' i j \<noteq> Inr PyNone"
    if "in_grid ?n i" "in_grid ?n j" "grid_get ?g i j \<noteq> Inr PyNone" for i j
    using get [OF that(1,2)] that(3) cval by auto
  from con have k1: "grid_get ?g ?py ?px \<noteq> Inr PyNone"
    by (simp add: consistent_def)
  from con have k2: "\<And>cx cy e. interior ?n cx \<Longrightarrow> interior ?n cy \<Longrightarrow>
      grid_get ?g (cy + off_y (handle_direction Walls e)) (cx + off_x (handle_direction Walls e)) = Inr NO_WALL \<Longrightarrow>
      grid_get ?g (cy + off_y (handle_direction Cells e)) (cx + off_x (handle_direction Cells e)) \<noteq> Inr PyNone"
    unfolding consistent_def get_wall_in_direction_eq get_cell_in_direction_eq
    by (simp del: handle_direction_simps)
  from con have k3: "\<And>cx cy v. interior ?n cx \<Longrightarrow> interior ?n cy \<Longrightarrow>
      grid_get ?g cy cx = Inr v \<Longrightarrow> v \<noteq> PyNone \<Longrightarrow>
        (cx = ?px \<and> cy = ?py)
      \<or> (\<forall>e. grid_get ?g (cy + off_y (handle_direction Walls e)) (cx + off_x (handle_direction Walls e)) \<noteq> Inr PyNone)
      \<or> (\<exists>sv. grid_get sim cy cx = Inr sv \<and> v = (if sv = PyInt 1 then PIT else CELL))"
    unfolding consistent_def get_wall_in_direction_eq get_cell_in_direction_eq
    by (simp del: handle_direction_simps)
  have k1': "grid_get ?g' ?py ?px \<noteq> Inr PyNone"
    using k1 ipx ipy by (intro stays) (simp_all add: interior_in_grid)
  have k2': "grid_get ?g' (cy + off_y (handle_direction Cells e)) (cx + off_x (handle_direction Cells e)) \<noteq> Inr PyNone"
    if cx: "interior ?n cx" and cy: "interior ?n cy"
      and opn: "grid_get ?g' (cy + off_y (handle_direction Walls e)) (cx + off_x (handle_direction Walls e)) = Inr NO_WALL"
    for cx cy e
  proof -
    let ?sy = "cy + off_y (handle_direction Walls e)" and ?sx = "cx + off_x (handle_direction Walls e)"
    let ?uy = "cy + off_y (handle_direction Cells e)" and ?ux = "cx + off_x (handle_direction Cells e)"
    from cx cy have ocx: "odd cx" and ocy: "odd cy" by (simp_all add: interior_def)
    from wall_slot_in_grid [OF cx cy, of e] have s: "in_grid ?n ?sy" "in_grid ?n ?sx" by simp_all
    from wall_slot_parity [OF ocx ocy, of e] have spar: "\<not> (odd ?sy \<and> odd ?sx)" by simp
    show ?thesis
    proof (cases "?sy = wy \<and> ?sx = wx")
      case True
      with walls [OF s spar] opn have opened: opened by (auto split: if_splits)
      from True have "?sy = ?py + off_y (handle_direction Walls d)"
        "?sx = ?px + off_x (handle_direction Walls d)"
        by (simp_all add: wy_def wx_def)
      from wall_slot_shared [OF ocx ocy opx opy this]
      consider "cx = ?px \<and> cy = ?py \<and> e = d" | "?ux = ?px \<and> ?uy = ?py" by blast
      then show ?thesis
      proof cases
        case 1
        then have "?uy = ty \<and> ?ux = tx" by (simp add: ty_def tx_def)
        with cells [OF t tpar] opened cval show ?thesis by simp
      next
        case 2
        with k1' show ?thesis by simp
      qed
    next
      case False
      with walls [OF s spar] opn have old: "grid_get ?g ?sy ?sx = Inr NO_WALL" by simp
      then have "grid_get ?g ?sy ?sx \<noteq> Inr WALL" by simp
      from cell_slot_interior [OF wf cx cy this]
      have u: "in_grid ?n ?uy" "in_grid ?n ?ux" by (simp_all add: interior_in_grid)
      from k2 [OF cx cy old] show ?thesis by (intro stays u)
    qed
  qed
  have k3': "(cx = ?px \<and> cy = ?py)
      \<or> (\<forall>e. grid_get ?g' (cy + off_y (handle_direction Walls e)) (cx + off_x (handle_direction Walls e)) \<noteq> Inr PyNone)
      \<or> (\<exists>sv. grid_get sim cy cx = Inr sv \<and> v = (if sv = PyInt 1 then PIT else CELL))"
    if cx: "interior ?n cx" and cy: "interior ?n cy"
      and val: "grid_get ?g' cy cx = Inr v" and known: "v \<noteq> PyNone"
    for cx cy v
  proof (cases "cy = ty \<and> cx = tx \<and> opened")
    case True
    with cells [OF t tpar] val have "v = c" by simp
    with sim True show ?thesis by blast
  next
    case False
    from cx cy have c: "in_grid ?n cy" "in_grid ?n cx" and cpar: "odd cy" "odd cx"
      by (simp_all add: interior_in_grid interior_def)
    from cells [OF c cpar] False val have old: "grid_get ?g cy cx = Inr v" by auto
    from k3 [OF cx cy old known]
    consider "cx = ?px \<and> cy = ?py"
      | "\<forall>e. grid_get ?g (cy + off_y (handle_direction Walls e)) (cx + off_x (handle_direction Walls e)) \<noteq> Inr PyNone"
      | "\<exists>sv. grid_get sim cy cx = Inr sv \<and> v = (if sv = PyInt 1 then PIT else CELL)"
      by blast
    then show ?thesis
    proof cases
      case 1
      then show ?thesis by blast
    next
      case 2
      have "grid_get ?g' (cy + off_y (handle_direction Walls e)) (cx + off_x (handle_direction Walls e)) \<noteq> Inr PyNone" for e
        using wall_slot_in_grid [OF cx cy, of e] 2 by (intro stays) simp_all
      then show ?thesis by blast
    next
      case 3
      then show ?thesis by blast
    qed
  qed
  from k2' have K2: "\<forall>cx cy e. interior ?n cx \<and> interior ?n cy
      \<and> grid_get ?g' (cy + off_y (handle_direction Walls e)) (cx + off_x (handle_direction Walls e)) = Inr NO_WALL \<longrightarrow>
      grid_get ?g' (cy + off_y (handle_direction Cells e)) (cx + off_x (handle_direction Cells e)) \<noteq> Inr PyNone"
    by blast
  from k3' have K3: "\<forall>cx cy v. interior ?n cx \<and> interior ?n cy \<and> grid_get ?g' cy cx = Inr v \<and> v \<noteq> PyNone \<longrightarrow>
        (cx = ?px \<and> cy = ?py)
      \<or> (\<forall>e. grid_get ?g' (cy + off_y (handle_direction Walls e)) (cx + off_x (handle_direction Walls e)) \<noteq> Inr PyNone)
      \<or> (\<exists>sv. grid_get sim cy cx = Inr sv \<and> v = (if sv = PyInt 1 then PIT else CELL))"
    by blast
  from k1' K2 K3 show ?thesis
    unfolding consistent_def get_wall_in_direction_eq get_cell_in_direction_eq dims px py
    by (simp del: handle_direction_simps)
qed

lemma consistent_known:
  assumes "consistent sim h"
    and "interior (MAP_DIMENSIONS h) cx" "interior (MAP_DIMENSIONS h) cy"
    and "grid_get (world_map h) cy cx = Inr v" "v \<noteq> PyNone"
  shows "(cx = xpos (current_postion h) \<and> cy = ypos (current_postion h))
      \<or> (\<forall>e. grid_get (world_map h) (cy + off_y (handle_direction Walls e))
                (cx + off_x (handle_direction Walls e)) \<noteq> Inr PyNone)
      \<or> (\<exists>sv. grid_get sim cy cx = Inr sv \<and> v = (if sv = PyInt 1 then PIT else CELL))"
  using assms unfolding consistent_def get_wall_in_direction_eq get_cell_in_direction_eq
  by (simp del: handle_direction_simps)

lemma opposite_wall_slot:
  "(y + off_y (handle_direction Cells d)) + off_y (handle_direction Walls (left_of (left_of d)))
     = y + off_y (handle_direction Walls d)
   \<and> (x + off_x (handle_direction Cells d)) + off_x (handle_direction Walls (left_of (left_of d)))
     = x + off_x (handle_direction Walls d)"
  by (cases d) simp_all

lemma well_formed_move_forward:
  assumes "well_formed h"
    and "interior (MAP_DIMENSIONS h)
           (xpos (current_postion h) + off_x (handle_direction Cells (direction (current_postion h))))"
    and "interior (MAP_DIMENSIONS h)
           (ypos (current_postion h) + off_y (handle_direction Cells (direction (current_postion h))))"
  shows "well_formed (move_forward h)"
  using assms unfolding well_formed_def
  by (simp del: handle_direction_simps)

lemma check_pit_infront_value:
  assumes "check_pit_infront sim p = Inr pit"
  shows "\<exists>sv. grid_get sim (ypos p + off_y (handle_direction Cells (direction p)))
                 (xpos p + off_x (handle_direction Cells (direction p))) = Inr sv
            \<and> (if pit then PIT else CELL) = (if sv = PyInt 1 then PIT else CELL)"
  using assms by (auto simp: check_pit_infront_def Let_def split: sum.splits)

subsection \<open>One pass of the scanning loop\<close>

lemma scan_direction_invariant:
  assumes wf: "well_formed h" and con: "consistent sim h"
  shows "well_formed (fst (scan_direction sim h d))
       \<and> MAP_DIMENSIONS (fst (scan_direction sim h d)) = MAP_DIMENSIONS h
       \<and> knowledge_kept (MAP_DIMENSIONS h) (world_map h) (world_map (fst (scan_direction sim h d)))
       \<and> (snd (scan_direction sim h d) = Inr False \<longrightarrow>
            consistent sim (fst (scan_direction sim h d))
          \<and> xpos (current_postion (fst (scan_direction sim h d))) = xpos (current_postion h)
          \<and> ypos (current_postion (fst (scan_direction sim h d))) = ypos (current_postion h)
          \<and> direction_recorded (fst (scan_direction sim h d)) d = Inr True)"
proof (cases "get_wall_in_direction h (current_postion h) d = Inr PyNone")
  case False
  with direction_recorded_value [OF wf con, of d] have "direction_recorded h d = Inr True"
    by simp
  then have res: "scan_direction sim h d = (h, Inr False)"
    by (simp add: scan_direction_def)
  from wf con \<open>direction_recorded h d = Inr True\<close> show ?thesis
    unfolding res by (simp add: knowledge_kept_refl)
next
  case True
  let ?n = "MAP_DIMENSIONS h" and ?g = "world_map h"
  let ?px = "xpos (current_postion h)" and ?py = "ypos (current_postion h)"
  define wy where "wy = ?py + off_y (handle_direction Walls d)"
  define wx where "wx = ?px + off_x (handle_direction Walls d)"
  define ty where "ty = ?py + off_y (handle_direction Cells d)"
  define tx where "tx = ?px + off_x (handle_direction Cells d)"
  define h1 where "h1 = h\<lparr>current_postion := (current_postion h)\<lparr>direction := d\<rparr>\<rparr>"
  have h1: "MAP_DIMENSIONS h1 = ?n" "world_map h1 = ?g" "xpos (current_postion h1) = ?px"
    "ypos (current_postion h1) = ?py" "direction (current_postion h1) = d"
    by (simp_all add: h1_def)
  have turn: "turn_to_face h d = Inr h1" by (simp add: turn_to_face_value h1_def)
  from True direction_recorded_value [OF wf con, of d] have rec: "direction_recorded h d = Inr False"
    by simp
  from True have unk: "grid_get ?g wy wx = Inr PyNone"
    by (simp add: get_wall_in_direction_eq wy_def wx_def)
  from wf_pos [OF wf] have ipx: "interior ?n ?px" and ipy: "interior ?n ?py" by simp_all
  from wall_slot_in_grid [OF ipx ipy, of d] have w: "in_grid ?n wy" "in_grid ?n wx"
    by (simp_all add: wy_def wx_def)
  from unk have "grid_get ?g wy wx \<noteq> Inr WALL" by simp
  from cell_slot_interior [OF wf ipx ipy this [unfolded wy_def wx_def]]
  have it: "interior ?n tx" "interior ?n ty" by (simp_all add: tx_def ty_def)
  then have t: "in_grid ?n ty" "in_grid ?n tx" by (simp_all add: interior_in_grid)
  from wall_slot_parity [of ?px ?py d] ipx ipy it have wt: "\<not> (wy = ty \<and> wx = tx)"
    by (auto simp: interior_def wy_def wx_def)
  have wf1: "well_formed h1"
    using wf by (simp add: well_formed_cong [of h1 h] h1)
  have kept1: "knowledge_kept ?n ?g (world_map h1)"
    by (simp add: h1 knowledge_kept_refl)
  show ?thesis
  proof (cases "check_wall_infront sim (current_postion h1)")
    case (Inl e)
    with rec turn have res: "scan_direction sim h d = (h1, Inl e)"
      by (simp add: scan_direction_def)
    from wf1 kept1 h1(1) show ?thesis unfolding res by simp
  next
    case wall: (Inr wall_infront)
    let ?wv = "if wall_infront then WALL else NO_WALL"
    from grid_set_effect [OF wf_shape [OF wf] w, of ?wv] obtain m2 where
      set2: "grid_set ?g wy wx ?wv = Inr m2" and shape2: "grid_shape ?n m2"
      and get2: "\<And>i j. in_grid ?n i \<Longrightarrow> in_grid ?n j \<Longrightarrow>
           grid_get m2 i j = (if i = wy \<and> j = wx then Inr ?wv else grid_get ?g i j)"
      by blast
    define h2 where "h2 = h1\<lparr>world_map := m2\<rparr>"
    have h2: "MAP_DIMENSIONS h2 = ?n" "world_map h2 = m2" "xpos (current_postion h2) = ?px"
      "ypos (current_postion h2) = ?py" "direction (current_postion h2) = d"
      by (simp_all add: h2_def h1)
    from set2 have recw: "record_wall_infront h1 wall_infront = Inr h2"
      by (simp add: record_wall_infront_def Let_def h1 h2_def wy_def wx_def)
    have wf2: "well_formed h2"
    proof (rule write_keeps_well_formed [where a = wy and b = wx and v = ?wv, OF wf h2(1) h2(3) h2(4)])
      show "grid_shape ?n (world_map h2)" by (simp add: h2 shape2)
      show "grid_get (world_map h2) i j = (if i = wy \<and> j = wx then Inr ?wv else grid_get ?g i j)"
        if "in_grid ?n i" "in_grid ?n j" for i j
        using get2 [OF that] by (simp add: h2)
      show "?wv = PyInt 0 \<or> ?wv = PyInt 1" by simp
      show "grid_get ?g wy wx = Inr PyNone \<or> (interior ?n wy \<and> interior ?n wx)"
        using unk by simp
    qed
    have kept2: "knowledge_kept ?n ?g (world_map h2)"
      unfolding h2 using get2 unk by (intro write_keeps_knowledge [where a = wy and b = wx and v = ?wv]) simp_all
    show ?thesis
    proof (cases wall_infront)
      case True
      with rec turn wall recw have res: "scan_direction sim h d = (h2, Inr False)"
        by (simp add: scan_direction_def)
      have con2: "consistent sim h2"
      proof (rule consistent_after_recording [where d = d and opened = False and c = PyNone,
            OF wf con h2(1) h2(3) h2(4), folded wy_def wx_def ty_def tx_def])
        show "grid_get ?g wy wx = Inr PyNone" by (rule unk)
        show "grid_get (world_map h2) i j =
             (if i = ty \<and> j = tx \<and> False then Inr PyNone
              else if i = wy \<and> j = wx then Inr (if False then NO_WALL else WALL)
              else grid_get ?g i j)"
          if "in_grid ?n i" "in_grid ?n j" for i j
          using get2 [OF that] True by (auto simp: h2)
      qed simp
      from get2 [OF w] True have "grid_get m2 wy wx = Inr WALL" by simp
      then have "get_wall_in_direction h2 (current_postion h2) d = Inr WALL"
        by (simp add: get_wall_in_direction_eq h2 wy_def wx_def)
      with direction_recorded_value [OF wf2 con2, of d]
      have "direction_recorded h2 d = Inr True" by simp
      with wf2 kept2 con2 h2 show ?thesis unfolding res by simp
    next
      case opened: False
      show ?thesis
      proof (cases "check_treasure_infront sim (current_postion h2)")
        case (Inl e)
        with rec turn wall recw opened have res: "scan_direction sim h d = (h2, Inl e)"
          by (simp add: scan_direction_def)
        from wf2 kept2 h2(1) show ?thesis unfolding res by simp
      next
        case treasure: (Inr treasure)
        show ?thesis
        proof (cases treasure)
          case True
          with rec turn wall recw opened treasure
          have res: "scan_direction sim h d = (move_forward h2, Inr True)"
            by (simp add: scan_direction_def)
          from it have "well_formed (move_forward h2)"
            by (intro well_formed_move_forward wf2) (simp_all add: h2 tx_def ty_def)
          with kept2 h2 show ?thesis unfolding res by simp
        next
          case no_treasure: False
          show ?thesis
          proof (cases "check_pit_infront sim (current_postion h2)")
            case (Inl e)
            with rec turn wall recw opened treasure no_treasure
            have res: "scan_direction sim h d = (h2, Inl e)"
              by (simp add: scan_direction_def)
            from wf2 kept2 h2(1) show ?thesis unfolding res by simp
          next
            case pit: (Inr pit_infront)
            let ?c = "if pit_infront then PIT else CELL"
            from check_pit_infront_value [OF pit] obtain sv where
              sv: "grid_get sim ty tx = Inr sv" and cv: "?c = (if sv = PyInt 1 then PIT else CELL)"
              by (auto simp: h2 ty_def tx_def)
            from grid_set_effect [OF shape2 t, of ?c] obtain m3 where
              set3: "grid_set m2 ty tx ?c = Inr m3" and shape3: "grid_shape ?n m3"
              and get3: "\<And>i j. in_grid ?n i \<Longrightarrow> in_grid ?n j \<Longrightarrow>
                   grid_get m3 i j = (if i = ty \<and> j = tx then Inr ?c else grid_get m2 i j)"
              by blast
            define h3 where "h3 = h2\<lparr>world_map := m3\<rparr>"
            have h3: "MAP_DIMENSIONS h3 = ?n" "world_map h3 = m3" "xpos (current_postion h3) = ?px"
              "ypos (current_postion h3) = ?py" "direction (current_postion h3) = d"
              by (simp_all add: h3_def h2)
            from set3 have recp: "record_pit_infront h2 pit_infront = Inr h3"
              by (simp add: record_pit_infront_def Let_def h2 h3_def ty_def tx_def)
            with rec turn wall recw opened treasure no_treasure pit
            have res: "scan_direction sim h d = (h3, Inr False)"
              by (simp add: scan_direction_def)
            have wf3: "well_formed h3"
            proof (rule write_keeps_well_formed [where a = ty and b = tx and v = ?c, OF wf2])
              show "MAP_DIMENSIONS h3 = MAP_DIMENSIONS h2" by (simp add: h2 h3)
              show "xpos (current_postion h3) = xpos (current_postion h2)" by (simp add: h2 h3)
              show "ypos (current_postion h3) = ypos (current_postion h2)" by (simp add: h2 h3)
              show "grid_shape (MAP_DIMENSIONS h2) (world_map h3)" by (simp add: h2 h3 shape3)
              show "grid_get (world_map h3) i j = (if i = ty \<and> j = tx then Inr ?c else grid_get (world_map h2) i j)"
                if "in_grid (MAP_DIMENSIONS h2) i" "in_grid (MAP_DIMENSIONS h2) j" for i j
                using get3 [of i j] that by (simp add: h2 h3)
              show "?c = PyInt 0 \<or> ?c = PyInt 1" by simp
              show "grid_get (world_map h2) ty tx = Inr PyNone
                    \<or> (interior (MAP_DIMENSIONS h2) ty \<and> interior (MAP_DIMENSIONS h2) tx)"
                using it by (simp add: h2)
            qed
            have old_t: "grid_get ?g ty tx = Inr PyNone \<or> grid_get ?g ty tx = Inr ?c"
            proof -
              from grid_get_in_grid [OF wf_shape [OF wf] t] obtain v where v: "grid_get ?g ty tx = Inr v"
                by blast
              show ?thesis
              proof (cases "v = PyNone")
                case True
                with v show ?thesis by simp
              next
                case False
                have e1: "ty + off_y (handle_direction Walls (left_of (left_of d))) = wy"
                  unfolding ty_def wy_def by (rule opposite_wall_slot [THEN conjunct1])
                have e2: "tx + off_x (handle_direction Walls (left_of (left_of d))) = wx"
                  unfolding tx_def wx_def by (rule opposite_wall_slot [THEN conjunct2])
                have "grid_get ?g (ty + off_y (handle_direction Walls (left_of (left_of d))))
                        (tx + off_x (handle_direction Walls (left_of (left_of d)))) = Inr PyNone"
                  unfolding e1 e2 by (rule unk)
                moreover from cell_step_not_zero [of d] have "\<not> (tx = ?px \<and> ty = ?py)"
                  by (auto simp: tx_def ty_def)
                ultimately have "\<exists>sv'. grid_get sim ty tx = Inr sv' \<and> v = (if sv' = PyInt 1 then PIT else CELL)"
                  using consistent_known [OF con it v False] by blast
                with sv cv v show ?thesis by simp
              qed
            qed
            have kept23: "knowledge_kept ?n m2 m3"
            proof (rule write_keeps_knowledge [where a = ty and b = tx and v = ?c])
              show "grid_get m3 i j = (if i = ty \<and> j = tx then Inr ?c else grid_get m2 i j)"
                if "in_grid ?n i" "in_grid ?n j" for i j
                using get3 [OF that] .
              from get2 [OF t] wt have "grid_get m2 ty tx = grid_get ?g ty tx" by auto
              with old_t show "grid_get m2 ty tx = Inr PyNone \<or> grid_get m2 ty tx = Inr ?c"
                by simp
            qed
            from kept2 kept23 have kept3: "knowledge_kept ?n ?g (world_map h3)"
              unfolding h2 h3 by (rule knowledge_kept_trans)
            have con3: "consistent sim h3"
            proof (rule consistent_after_recording [where d = d and opened = True and c = ?c,
                  OF wf con h3(1) h3(3) h3(4), folded wy_def wx_def ty_def tx_def])
              show "grid_get ?g wy wx = Inr PyNone" by (rule unk)
              show "grid_get (world_map h3) i j =
                 (if i = ty \<and> j = tx \<and> True then Inr ?c
                  else if i = wy \<and> j = wx then Inr (if True then NO_WALL else WALL)
                  else grid_get ?g i j)"
                if "in_grid ?n i" "in_grid ?n j" for i j
                using get3 [OF that] get2 [OF that] opened by (auto simp: h3)
              show "\<exists>sv. grid_get sim ty tx = Inr sv \<and> ?c = (if sv = PyInt 1 then PIT else CELL)"
                using sv cv by blast
            qed
            from get3 [OF w] get2 [OF w] wt opened
            have "grid_get m3 wy wx = Inr NO_WALL" by auto
            then have "get_wall_in_direction h3 (current_postion h3) d = Inr NO_WALL"
              by (simp add: get_wall_in_direction_eq h3 wy_def wx_def)
            with direction_recorded_value [OF wf3 con3, of d]
            have "direction_recorded h3 d = Inr True" by simp
            with wf3 kept3 con3 h3 show ?thesis unfolding res by simp
          qed
        qed
      qed
    qed
  qed
qed

subsection \<open>The steps of the loop keep the invariant\<close>

lemma recorded_kept:
  assumes wf: "well_formed h" and con: "consistent sim h"
    and wf': "well_formed h'" and con': "consistent sim h'"
    and px: "xpos (current_postion h') = xpos (current_postion h)"
    and py: "ypos (current_postion h') = ypos (current_postion h)"
    and kept: "knowledge_kept (MAP_DIMENSIONS h) (world_map h) (world_map h')"
    and rec: "direction_recorded h e = Inr True"
  shows "direction_recorded h' e = Inr True"
proof -
  let ?n = "MAP_DIMENSIONS h"
  let ?wy = "ypos (current_postion h) + off_y (handle_direction Walls e)"
  let ?wx = "xpos (current_postion h) + off_x (handle_direction Walls e)"
  from wf_pos [OF wf] have "interior ?n (xpos (current_postion h))" "interior ?n (ypos (current_postion h))"
    by simp_all
  from wall_slot_in_grid [OF this, of e] have w: "in_grid ?n ?wy" "in_grid ?n ?wx" by simp_all
  from grid_get_in_grid [OF wf_shape [OF wf] w] obtain v where v: "grid_get (world_map h) ?wy ?wx = Inr v"
    by blast
  from rec direction_recorded_value [OF wf con, of e] v have "v \<noteq> PyNone"
    by (auto simp: get_wall_in_direction_eq)
  with kept w v have "grid_get (world_map h') ?wy ?wx = Inr v"
    unfolding knowledge_kept_def by blast
  with \<open>v \<noteq> PyNone\<close> have "get_wall_in_direction h' (current_postion h') e \<noteq> Inr PyNone"
    by (simp add: get_wall_in_direction_eq px py)
  with direction_recorded_value [OF wf' con', of e] show ?thesis by simp
qed

lemma scanning_priority_all: "d \<in> set (generate_direction_priority h (Some Scanning))"
  by (cases "direction (current_postion h)"; cases d)
     (simp_all add: generate_direction_priority_def)

lemma find_best_direction_checked:
  assumes "find_best_direction h = Inr d"
  shows "check_valid_path h d = Inr True"
proof -
  let ?P = "\<lambda>k d. check_valid_path h d = Inr True \<and> unexplored_score h d = Inr k"
  from find_best_direction_result [OF assms] obtain k where
    ne: "filter (?P k) (generate_direction_priority h None) \<noteq> []"
    and d: "d = hd (filter (?P k) (generate_direction_priority h None))"
    by blast
  from ne have "hd (filter (?P k) (generate_direction_priority h None))
      \<in> set (filter (?P k) (generate_direction_priority h None))"
    by (rule hd_in_set)
  with d have "d \<in> set (filter (?P k) (generate_direction_priority h None))"
    by (simp only:)
  then show ?thesis by simp
qed

text \<open>The move of the decide step: through a wall segment recorded open, onto a recorded
  cell inside the ring, leaving behind a cell whose four directions are recorded.\<close>

lemma move_invariant:
  assumes wf: "well_formed h" and con: "consistent sim h"
    and all: "\<And>e. direction_recorded h e = Inr True"
    and valid: "check_valid_path h t = Inr True"
  shows "well_formed (move_forward (h\<lparr>current_postion := (current_postion h)\<lparr>direction := t\<rparr>\<rparr>))
       \<and> consistent sim (move_forward (h\<lparr>current_postion := (current_postion h)\<lparr>direction := t\<rparr>\<rparr>))"
proof -
  let ?n = "MAP_DIMENSIONS h" and ?g = "world_map h"
  let ?px = "xpos (current_postion h)" and ?py = "ypos (current_postion h)"
  let ?wy = "?py + off_y (handle_direction Walls t)" and ?wx = "?px + off_x (handle_direction Walls t)"
  let ?ty = "?py + off_y (handle_direction Cells t)" and ?tx = "?px + off_x (handle_direction Cells t)"
  let ?h1 = "h\<lparr>current_postion := (current_postion h)\<lparr>direction := t\<rparr>\<rparr>"
  let ?h2 = "move_forward ?h1"
  from wf_pos [OF wf] have ipx: "interior ?n ?px" and ipy: "interior ?n ?py" by simp_all
  from valid obtain w c where w: "grid_get ?g ?wy ?wx = Inr w" "\<not> truthy w"
    and c: "grid_get ?g ?ty ?tx = Inr c"
    by (auto simp: check_valid_path_eq get_wall_in_direction_eq get_cell_in_direction_eq
        split: sum.splits if_splits)
  from w have notwall: "grid_get ?g ?wy ?wx \<noteq> Inr WALL" by auto
  from cell_slot_interior [OF wf ipx ipy notwall]
  have it: "interior ?n ?tx" "interior ?n ?ty" by simp_all
  from all [of t] direction_recorded_value [OF wf con, of t] w have "w \<noteq> PyNone"
    by (auto simp: get_wall_in_direction_eq)
  from wall_slot_in_grid [OF ipx ipy, of t] wf
  have "grid_get ?g ?wy ?wx \<in> {Inr PyNone, Inr (PyInt 0), Inr (PyInt 1), Inr WALL_INTERSECTION}"
    unfolding well_formed_def by blast
  with w \<open>w \<noteq> PyNone\<close> have open_wall: "grid_get ?g ?wy ?wx = Inr NO_WALL" by auto
  from con ipx ipy open_wall have target: "grid_get ?g ?ty ?tx \<noteq> Inr PyNone"
    unfolding consistent_def get_wall_in_direction_eq get_cell_in_direction_eq
    by (auto simp del: handle_direction_simps)
  have wf1: "well_formed ?h1" using wf by (simp add: well_formed_cong [of ?h1 h])
  have wf2: "well_formed ?h2"
    using it by (intro well_formed_move_forward wf1) simp_all
  have walls_known: "grid_get ?g (?py + off_y (handle_direction Walls e))
      (?px + off_x (handle_direction Walls e)) \<noteq> Inr PyNone" for e
    using all [of e] direction_recorded_value [OF wf con, of e]
    by (simp add: get_wall_in_direction_eq)
  have k3: "(cx = ?tx \<and> cy = ?ty)
      \<or> (\<forall>e. grid_get ?g (cy + off_y (handle_direction Walls e)) (cx + off_x (handle_direction Walls e)) \<noteq> Inr PyNone)
      \<or> (\<exists>sv. grid_get sim cy cx = Inr sv \<and> v = (if sv = PyInt 1 then PIT else CELL))"
    if "interior ?n cx" "interior ?n cy" "grid_get ?g cy cx = Inr v" "v \<noteq> PyNone" for cx cy v
    using consistent_known [OF con that] walls_known by blast
  from con have k2: "\<forall>cx cy d. interior ?n cx \<and> interior ?n cy
      \<and> grid_get ?g (cy + off_y (handle_direction Walls d)) (cx + off_x (handle_direction Walls d)) = Inr NO_WALL \<longrightarrow>
      grid_get ?g (cy + off_y (handle_direction Cells d)) (cx + off_x (handle_direction Cells d)) \<noteq> Inr PyNone"
    unfolding consistent_def get_wall_in_direction_eq get_cell_in_direction_eq
    by (simp del: handle_direction_simps)
  from k3 have K3: "\<forall>cx cy v. interior ?n cx \<and> interior ?n cy \<and> grid_get ?g cy cx = Inr v \<and> v \<noteq> PyNone \<longrightarrow>
        (cx = ?tx \<and> cy = ?ty)
      \<or> (\<forall>e. grid_get ?g (cy + off_y (handle_direction Walls e)) (cx + off_x (handle_direction Walls e)) \<noteq> Inr PyNone)
      \<or> (\<exists>sv. grid_get sim cy cx = Inr sv \<and> v = (if sv = PyInt 1 then PIT else CELL))"
    by blast
  from target k2 K3 have "consistent sim ?h2"
    unfolding consistent_def get_wall_in_direction_eq get_cell_in_direction_eq
    by (simp del: handle_direction_simps)
  with wf2 show ?thesis by simp
qed

lemma step_invariant:
  assumes inv: "invariant sim s"
  shows "invariant sim (step sim s)
       \<and> MAP_DIMENSIONS (fst (step sim s)) = MAP_DIMENSIONS (fst s)
       \<and> knowledge_kept (MAP_DIMENSIONS (fst s)) (world_map (fst s)) (world_map (fst (step sim s)))"
proof (cases s)
  case (Pair h ph)
  show ?thesis
  proof (cases ph)
    case (Scan ds)
    with inv Pair have wf: "well_formed h" and con: "consistent sim h"
      and scanned: "\<And>e. e \<notin> set ds \<Longrightarrow> direction_recorded h e = Inr True"
      by simp_all
    show ?thesis
    proof (cases ds)
      case Nil
      with Pair Scan wf con scanned show ?thesis by (simp add: knowledge_kept_refl)
    next
      case (Cons d rest)
      obtain h' r where res: "scan_direction sim h d = (h', r)" by (cases "scan_direction sim h d")
      from scan_direction_invariant [OF wf con, of d] res
      have wf': "well_formed h'" and dims: "MAP_DIMENSIONS h' = MAP_DIMENSIONS h"
        and kept: "knowledge_kept (MAP_DIMENSIONS h) (world_map h) (world_map h')"
        and cont: "r = Inr False \<Longrightarrow> consistent sim h'
          \<and> xpos (current_postion h') = xpos (current_postion h)
          \<and> ypos (current_postion h') = ypos (current_postion h)
          \<and> direction_recorded h' d = Inr True"
        by simp_all
      show ?thesis
      proof (cases r)
        case (Inl e)
        with Pair Scan Cons res wf' dims kept show ?thesis by simp
      next
        case (Inr goal_reached)
        show ?thesis
        proof (cases goal_reached)
          case True
          with Pair Scan Cons res Inr wf' dims kept show ?thesis by simp
        next
          case False
          with Inr cont have con': "consistent sim h'"
            and px: "xpos (current_postion h') = xpos (current_postion h)"
            and py: "ypos (current_postion h') = ypos (current_postion h)"
            and recd: "direction_recorded h' d = Inr True"
            by simp_all
          have "direction_recorded h' e = Inr True" if "e \<notin> set rest" for e
          proof (cases "e = d")
            case True
            with recd show ?thesis by simp
          next
            case False
            with that Cons have "e \<notin> set ds" by simp
            from recorded_kept [OF wf con wf' con' px py kept scanned [OF this]] show ?thesis .
          qed
          with Pair Scan Cons res Inr False wf' con' dims kept show ?thesis by simp
        qed
      qed
    qed
  next
    case Decide
    with inv Pair have wf: "well_formed h" and con: "consistent sim h"
      and all: "\<And>e. direction_recorded h e = Inr True"
      by simp_all
    show ?thesis
    proof (cases "find_best_direction h")
      case (Inl e)
      with Pair Decide wf show ?thesis by (simp add: knowledge_kept_refl)
    next
      case (Inr t)
      let ?h2 = "move_forward (h\<lparr>current_postion := (current_postion h)\<lparr>direction := t\<rparr>\<rparr>)"
      from move_invariant [OF wf con all find_best_direction_checked [OF Inr]]
      have "well_formed ?h2" "consistent sim ?h2" by simp_all
      moreover have "step sim s = (?h2, Scan (generate_direction_priority ?h2 (Some Scanning)))"
        using Pair Decide Inr by (simp add: turn_to_face_value Let_def)
      ultimately show ?thesis
        using Pair by (simp add: scanning_priority_all knowledge_kept_refl)
    qed
  next
    case GoalFound
    with inv Pair show ?thesis by (simp add: knowledge_kept_refl)
  next
    case (Failed e)
    with inv Pair show ?thesis by (simp add: knowledge_kept_refl)
  qed
qed

lemma run_invariant:
  assumes "invariant sim s"
  shows "invariant sim (run k sim s)
       \<and> MAP_DIMENSIONS (fst (run k sim s)) = MAP_DIMENSIONS (fst s)
       \<and> knowledge_kept (MAP_DIMENSIONS (fst s)) (world_map (fst s)) (world_map (fst (run k sim s)))"
proof (induction k)
  case 0
  from assms show ?case by (simp add: knowledge_kept_refl)
next
  case (Suc k)
  then have inv: "invariant sim (run k sim s)"
    and dims: "MAP_DIMENSIONS (fst (run k sim s)) = MAP_DIMENSIONS (fst s)"
    and kept: "knowledge_kept (MAP_DIMENSIONS (fst s)) (world_map (fst s)) (world_map (fst (run k sim s)))"
    by simp_all
  from step_invariant [OF inv] dims
  have "invariant sim (step sim (run k sim s))"
    and "MAP_DIMENSIONS (fst (step sim (run k sim s))) = MAP_DIMENSIONS (fst s)"
    and "knowledge_kept (MAP_DIMENSIONS (fst s)) (world_map (fst (run k sim s)))
           (world_map (fst (step sim (run k sim s))))"
    by simp_all
  with kept show ?case
    by (auto intro: knowledge_kept_trans)
qed

subsection \<open>The initial map\<close>

lemma generate_world_map_blank:
  "generate_world_map n p = grid_set (blank_map n) (ypos p) (xpos p) CELL"
  by (simp add: generate_world_map_def blank_map_def Let_def)

lemma alternating_length: "length (a # concat (replicate k [b, a])) = 2 * k + 1"
  by (induction k) simp_all

lemma pred_parity:
  assumes "0 < (i::int)"
  shows "((nat i - 1) mod 2 = 0) = odd i"
proof -
  from assms obtain r where r: "nat i = Suc r" by (cases "nat i") auto
  from assms have "even (nat i) = even i" by (simp add: even_nat_iff)
  with r have "odd i = even r" by auto
  with r show ?thesis by (simp add: even_iff_mod_2_eq_zero)
qed

lemma alternating_nth:
  "j < 2 * k + 1 \<Longrightarrow> (a # concat (replicate k [b, a])) ! j = (if even j then a else b)"
proof (induction k arbitrary: j)
  case 0
  then show ?case by simp
next
  case (Suc k)
  show ?case
  proof (cases j)
    case 0
    then show ?thesis by simp
  next
    case (Suc j1)
    show ?thesis
    proof (cases j1)
      case 0
      with Suc show ?thesis by simp
    next
      case (Suc j2)
      with \<open>j = Suc j1\<close> Suc.prems have "j2 < 2 * k + 1" by simp
      from Suc.IH [OF this] \<open>j = Suc j1\<close> Suc show ?thesis by simp
    qed
  qed
qed

lemma side_row_nth:
  "j < l + 2 \<Longrightarrow> (w # replicate l u @ [w]) ! j = (if j = 0 \<or> j = l + 1 then w else u)"
  by (cases j) (auto simp: nth_append)

lemma concat_replicate_single: "concat (replicate k [u]) = replicate k u"
  by (induction k) simp_all

text \<open>Every slot of the blank map of a maze of side \<open>D\<close>.\<close>

lemma blank_map_shape:
  assumes "1 \<le> D"
  shows "grid_shape (2 * D + 1) (blank_map (2 * D + 1))"
proof -
  have half: "(2 * D + 1) div 2 = D" by simp
  from assms have l: "int (nat (2 * D + 1 - 2)) = 2 * D - 1" and k: "int (nat D) = D" by simp_all
  have "int (length row) = 2 * D + 1" if "row \<in> set (blank_map (2 * D + 1))" for row
  proof -
    have pair: "int (length (a # concat (replicate (nat D) [b, a]))) = 2 * D + 1" for a b :: pyval
      unfolding alternating_length using k by simp
    have side: "int (length ([WALL] @ replicate (nat (2 * D + 1 - 2)) PyNone @ [WALL])) = 2 * D + 1"
      using l by simp
    from that consider "row = WALL_INTERSECTION # concat (replicate (nat D) [WALL, WALL_INTERSECTION])"
      | "row = [WALL] @ replicate (nat (2 * D + 1 - 2)) PyNone @ [WALL]"
      | "row = WALL_INTERSECTION # concat (replicate (nat D) [PyNone, WALL_INTERSECTION])"
      unfolding blank_map_def half list_times_def concat_replicate_single
      by (auto split: if_splits)
    then show ?thesis using pair side by cases simp_all
  qed
  moreover have "int (length (blank_map (2 * D + 1))) = 2 * D + 1"
    using l by (simp add: blank_map_def)
  ultimately show ?thesis by (simp add: grid_shape_def)
qed

lemma blank_map_slot:
  assumes D: "1 \<le> D" and i: "in_grid (2 * D + 1) i" and j: "in_grid (2 * D + 1) j"
  shows "grid_get (blank_map (2 * D + 1)) i j =
     Inr (if even i
          then (if even j then WALL_INTERSECTION else if i = 0 \<or> i = 2 * D then WALL else PyNone)
          else (if j = 0 \<or> j = 2 * D then WALL else PyNone))"
proof -
  let ?n = "2 * D + 1"
  let ?top = "WALL_INTERSECTION # concat (replicate (nat D) [WALL, WALL_INTERSECTION])"
  let ?f = "\<lambda>r::nat. if r mod 2 = 0
                 then WALL # replicate (nat (2 * D - 1)) PyNone @ [WALL]
                 else WALL_INTERSECTION # concat (replicate (nat D) [PyNone, WALL_INTERSECTION])"
  have half: "?n div 2 = D" by simp
  have m: "blank_map ?n = ?top # map ?f [0 ..< nat (2 * D - 1)] @ [?top]"
    unfolding blank_map_def half list_times_def concat_replicate_single by simp
  from i j have ni: "nat i < nat (2 * D - 1) + 2" and nj: "nat j < 2 * nat D + 1"
    and nj': "nat j < nat (2 * D - 1) + 2"
    using D by (auto simp: in_grid_def)
  have row: "blank_map ?n ! nat i =
      (if i = 0 \<or> i = 2 * D then ?top else ?f (nat i - 1))"
  proof (cases "i = 0")
    case True
    then show ?thesis by (simp add: m)
  next
    case False
    with i obtain r where r: "nat i = Suc r" by (cases "nat i") (auto simp: in_grid_def)
    show ?thesis
    proof (cases "i = 2 * D")
      case True
      with r D have "r = length (map ?f [0 ..< nat (2 * D - 1)])" by simp
      then have "(map ?f [0 ..< nat (2 * D - 1)] @ [?top]) ! r = ?top"
        by (simp only: nth_append_length)
      with True r show ?thesis by (simp add: m)
    next
      case neq: False
      with i r D have "r < nat (2 * D - 1)" by (auto simp: in_grid_def)
      then have "(map ?f [0 ..< nat (2 * D - 1)] @ [?top]) ! r = ?f r"
        by (simp add: nth_append)
      with False neq r show ?thesis by (simp add: m)
    qed
  qed
  have slot: "blank_map ?n ! nat i ! nat j =
     (if even i
      then (if even j then WALL_INTERSECTION else if i = 0 \<or> i = 2 * D then WALL else PyNone)
      else (if j = 0 \<or> j = 2 * D then WALL else PyNone))"
  proof (cases "i = 0 \<or> i = 2 * D")
    case True
    with row have "blank_map ?n ! nat i ! nat j = ?top ! nat j" by simp
    also have "\<dots> = (if even (nat j) then WALL_INTERSECTION else WALL)"
      using nj by (rule alternating_nth)
    finally show ?thesis using True j by (auto simp: in_grid_def even_nat_iff)
  next
    case False
    with row have r: "blank_map ?n ! nat i ! nat j = ?f (nat i - 1) ! nat j" by simp
    from False i have ipos: "0 < i" by (auto simp: in_grid_def)
    show ?thesis
    proof (cases "even i")
      case True
      with pred_parity [OF ipos] have "(nat i - 1) mod 2 \<noteq> 0" by simp
      with r have "blank_map ?n ! nat i ! nat j =
          (WALL_INTERSECTION # concat (replicate (nat D) [PyNone, WALL_INTERSECTION])) ! nat j"
        by simp
      also have "\<dots> = (if even (nat j) then WALL_INTERSECTION else PyNone)"
        using nj by (rule alternating_nth)
      finally show ?thesis using True False j by (auto simp: in_grid_def even_nat_iff)
    next
      case odd: False
      with pred_parity [OF ipos] have "(nat i - 1) mod 2 = 0" by simp
      with r have "blank_map ?n ! nat i ! nat j =
          (WALL # replicate (nat (2 * D - 1)) PyNone @ [WALL]) ! nat j"
        by simp
      also have "\<dots> = (if nat j = 0 \<or> nat j = nat (2 * D - 1) + 1 then WALL else PyNone)"
        using nj' by (rule side_row_nth)
      finally show ?thesis using odd j D by (auto simp: in_grid_def)
    qed
  qed
  from grid_get_in_grid [OF blank_map_shape [OF D] i j] slot show ?thesis by simp
qed

lemma initial_state_invariant:
  assumes D: "1 \<le> D"
  obtains h0 where "initial_state D = Inr (h0, Scan (generate_direction_priority h0 (Some Scanning)))"
    and "MAP_DIMENSIONS h0 = 2 * D + 1"
    and "invariant sim (h0, Scan (generate_direction_priority h0 (Some Scanning)))"
proof -
  let ?n = "2 * D + 1"
  let ?p = "\<lparr>xpos = 1, ypos = 2 * D - 1, direction = East\<rparr>"
  let ?m0 = "blank_map ?n"
  from D have sy: "in_grid ?n (2 * D - 1)" and sx: "in_grid ?n 1"
    and iy: "interior ?n (2 * D - 1)" and ix: "interior ?n 1"
    by (simp_all add: in_grid_def interior_def)
  from grid_set_effect [OF blank_map_shape [OF D] sy sx, of CELL] obtain m1 where
    set1: "grid_set ?m0 (2 * D - 1) 1 CELL = Inr m1" and shape1: "grid_shape ?n m1"
    and get1: "\<And>i j. in_grid ?n i \<Longrightarrow> in_grid ?n j \<Longrightarrow>
         grid_get m1 i j = (if i = 2 * D - 1 \<and> j = 1 then Inr CELL else grid_get ?m0 i j)"
    by blast
  define h00 where "h00 = \<lparr>MAP_DIMENSIONS = ?n, current_postion = ?p, world_map = ?m0\<rparr>"
  define h0 where "h0 = \<lparr>MAP_DIMENSIONS = ?n, current_postion = ?p, world_map = m1\<rparr>"
  have h0: "MAP_DIMENSIONS h0 = ?n" "world_map h0 = m1" "xpos (current_postion h0) = 1"
    "ypos (current_postion h0) = 2 * D - 1"
    by (simp_all add: h0_def)
  have h00: "MAP_DIMENSIONS h00 = ?n" "world_map h00 = ?m0" "xpos (current_postion h00) = 1"
    "ypos (current_postion h00) = 2 * D - 1"
    by (simp_all add: h00_def)
  have init: "initial_state D = Inr (h0, Scan (generate_direction_priority h0 (Some Scanning)))"
  proof -
    have "MiroHandler (D * 2 + 1) \<lparr>xpos = 1, ypos = D * 2 - 1, direction = East\<rparr> = Inr h0"
      using set1 by (simp add: MiroHandler_def generate_world_map_blank h0_def mult.commute)
    then show ?thesis by (simp add: initial_state_def)
  qed
  note slot = blank_map_slot [OF D]
  from D have zero: "in_grid ?n 0" and last: "in_grid ?n (2 * D)" by (simp_all add: in_grid_def)
  have wf00: "well_formed h00"
  proof -
    have ring: "grid_get ?m0 0 k = Inr WALL \<and> grid_get ?m0 (?n - 1) k = Inr WALL
        \<and> grid_get ?m0 k 0 = Inr WALL \<and> grid_get ?m0 k (?n - 1) = Inr WALL"
      if k: "in_grid ?n k" "odd k" for k
      using slot [OF zero k(1)] slot [OF last k(1)] slot [OF k(1) zero] slot [OF k(1) last] k(2)
      by simp
    have sect: "grid_get ?m0 i j = Inr WALL_INTERSECTION"
      if "in_grid ?n i" "in_grid ?n j" "even i" "even j" for i j
      using slot [OF that(1,2)] that(3,4) by simp
    have vals: "grid_get ?m0 i j \<in> {Inr PyNone, Inr (PyInt 0), Inr (PyInt 1), Inr WALL_INTERSECTION}"
      if "in_grid ?n i" "in_grid ?n j" for i j
      using slot [OF that] by simp
    from ring have R: "\<forall>k. in_grid ?n k \<and> odd k \<longrightarrow>
          grid_get ?m0 0 k = Inr WALL \<and> grid_get ?m0 (?n - 1) k = Inr WALL
        \<and> grid_get ?m0 k 0 = Inr WALL \<and> grid_get ?m0 k (?n - 1) = Inr WALL"
      by blast
    from sect have S: "\<forall>i j. in_grid ?n i \<and> in_grid ?n j \<and> even i \<and> even j \<longrightarrow>
          grid_get ?m0 i j = Inr WALL_INTERSECTION"
      by blast
    from vals have V: "\<forall>i j. in_grid ?n i \<and> in_grid ?n j \<longrightarrow>
          grid_get ?m0 i j \<in> {Inr PyNone, Inr (PyInt 0), Inr (PyInt 1), Inr WALL_INTERSECTION}"
      by blast
    from D have n: "3 \<le> ?n" "odd ?n" by simp_all
    from n blank_map_shape [OF D] ix iy R S V show ?thesis
      unfolding well_formed_def h00 by (simp only: simp_thms)
  qed
  have wf0: "well_formed h0"
  proof (rule write_keeps_well_formed [where a = "2 * D - 1" and b = 1 and v = CELL, OF wf00])
    show "MAP_DIMENSIONS h0 = MAP_DIMENSIONS h00" by (simp add: h0 h00)
    show "xpos (current_postion h0) = xpos (current_postion h00)" by (simp add: h0 h00)
    show "ypos (current_postion h0) = ypos (current_postion h00)" by (simp add: h0 h00)
    show "grid_shape (MAP_DIMENSIONS h00) (world_map h0)" by (simp add: h0 h00 shape1)
    show "grid_get (world_map h0) i j =
        (if i = 2 * D - 1 \<and> j = 1 then Inr CELL else grid_get (world_map h00) i j)"
      if "in_grid (MAP_DIMENSIONS h00) i" "in_grid (MAP_DIMENSIONS h00) j" for i j
      using get1 [of i j] that by (simp add: h0 h00)
    show "CELL = PyInt 0 \<or> CELL = PyInt 1" by simp
    show "grid_get (world_map h00) (2 * D - 1) 1 = Inr PyNone
        \<or> (interior (MAP_DIMENSIONS h00) (2 * D - 1) \<and> interior (MAP_DIMENSIONS h00) 1)"
      using ix iy by (simp add: h00)
  qed
  have con0: "consistent sim h0"
  proof -
    have k1: "grid_get m1 (2 * D - 1) 1 \<noteq> Inr PyNone"
      using get1 [OF sy sx] by simp
    have k2: "grid_get m1 (cy + off_y (handle_direction Walls d)) (cx + off_x (handle_direction Walls d)) \<noteq> Inr NO_WALL"
      if cx: "interior ?n cx" and cy: "interior ?n cy" for cx cy d
    proof -
      from wall_slot_in_grid [OF cx cy, of d]
      have w: "in_grid ?n (cy + off_y (handle_direction Walls d))"
        "in_grid ?n (cx + off_x (handle_direction Walls d))" by simp_all
      from cx cy have "odd cx" "odd cy" by (simp_all add: interior_def)
      from wall_slot_parity [OF this, of d]
      have par: "\<not> (odd (cy + off_y (handle_direction Walls d)) \<and> odd (cx + off_x (handle_direction Walls d)))"
        by simp
      have "\<not> (cy + off_y (handle_direction Walls d) = 2 * D - 1 \<and> cx + off_x (handle_direction Walls d) = 1)"
      proof
        assume e: "cy + off_y (handle_direction Walls d) = 2 * D - 1 \<and> cx + off_x (handle_direction Walls d) = 1"
        then have a: "cy + off_y (handle_direction Walls d) = 2 * D - 1"
          and b: "cx + off_x (handle_direction Walls d) = 1" by blast+
        have "odd (cy + off_y (handle_direction Walls d))" unfolding a by simp
        moreover have "odd (cx + off_x (handle_direction Walls d))" unfolding b by simp
        ultimately show False using par by blast
      qed
      with get1 [OF w] have "grid_get m1 (cy + off_y (handle_direction Walls d)) (cx + off_x (handle_direction Walls d))
          = grid_get ?m0 (cy + off_y (handle_direction Walls d)) (cx + off_x (handle_direction Walls d))"
        by simp
      with slot [OF w] show ?thesis by simp
    qed
    have k3: "cx = 1 \<and> cy = 2 * D - 1"
      if cx: "interior ?n cx" and cy: "interior ?n cy"
        and v: "grid_get m1 cy cx = Inr v" "v \<noteq> PyNone" for cx cy v
    proof (rule ccontr)
      assume "\<not> (cx = 1 \<and> cy = 2 * D - 1)"
      with get1 [of cy cx] cx cy have "grid_get m1 cy cx = grid_get ?m0 cy cx"
        by (auto simp: interior_in_grid)
      moreover from slot [of cy cx] cx cy have "grid_get ?m0 cy cx = Inr PyNone"
        by (auto simp: interior_in_grid interior_def)
      ultimately show False using v by simp
    qed
    from k2 have K2: "\<forall>cx cy d. interior ?n cx \<and> interior ?n cy
        \<and> grid_get m1 (cy + off_y (handle_direction Walls d)) (cx + off_x (handle_direction Walls d)) = Inr NO_WALL \<longrightarrow>
        grid_get m1 (cy + off_y (handle_direction Cells d)) (cx + off_x (handle_direction Cells d)) \<noteq> Inr PyNone"
      by blast
    from k3 have K3: "\<forall>cx cy v. interior ?n cx \<and> interior ?n cy \<and> grid_get m1 cy cx = Inr v \<and> v \<noteq> PyNone \<longrightarrow>
        (cx = 1 \<and> cy = 2 * D - 1)
      \<or> (\<forall>e. grid_get m1 (cy + off_y (handle_direction Walls e)) (cx + off_x (handle_direction Walls e)) \<noteq> Inr PyNone)
      \<or> (\<exists>sv. grid_get sim cy cx = Inr sv \<and> v = (if sv = PyInt 1 then PIT else CELL))"
      by blast
    from k1 K2 K3 show ?thesis
      unfolding consistent_def get_wall_in_direction_eq get_cell_in_direction_eq h0
      by (simp del: handle_direction_simps)
  qed
  from wf0 con0 have "invariant sim (h0, Scan (generate_direction_priority h0 (Some Scanning)))"
    by (simp add: scanning_priority_all)
  with init h0(1) show ?thesis by (rule that)
qed

subsection \<open>Every state of a run\<close>

lemma explore_invariant:
  assumes D: "1 \<le> D" and ex: "explore k D s = Inr (h, ph)"
  shows "invariant (generate_world_map_from_file s) (h, ph) \<and> MAP_DIMENSIONS h = 2 * D + 1"
proof -
  let ?sim = "generate_world_map_from_file s"
  from initial_state_invariant [OF D, of ?sim] obtain h0 where
    init: "initial_state D = Inr (h0, Scan (generate_direction_priority h0 (Some Scanning)))"
    and dims: "MAP_DIMENSIONS h0 = 2 * D + 1"
    and inv: "invariant ?sim (h0, Scan (generate_direction_priority h0 (Some Scanning)))"
    by blast
  from ex init have "run k ?sim (h0, Scan (generate_direction_priority h0 (Some Scanning))) = (h, ph)"
    by (simp add: explore_def)
  with run_invariant [OF inv, of k] dims show ?thesis by simp
qed

lemma explore_add:
  assumes "explore k D s = Inr st"
  shows "explore (k + m) D s = Inr (run m (generate_world_map_from_file s) st)"
  using assms by (auto simp: explore_def run_add split: sum.splits)

lemma scan_direction_position:
  assumes "scan_direction sim h d = (h', r)" and "r \<noteq> Inr True"
  shows "xpos (current_postion h') = xpos (current_postion h)
       \<and> ypos (current_postion h') = ypos (current_postion h)"
  using assms unfolding scan_direction_def turn_to_face_value
  by (auto dest!: record_wall_infront_frame [THEN conjunct1] record_pit_infront_frame [THEN conjunct1]
      split: sum.splits if_splits)

text \<open>
  C6. In every state that the exploration loop reaches from the initial grid of a maze
  of side \<open>map_size\<close>, and in every later state of the same run: a slot with two even
  coordinates holds the intersection mark, and a slot that holds a value (it has left
  unknown) holds the same value later on. No slot returns to unknown and none is
  overwritten with another value.
\<close>

theorem knowledge_is_monotonic:
  assumes "1 \<le> map_size"
    and "explore k map_size world_map_string = Inr (h, ph)"
    and "explore (k + m) map_size world_map_string = Inr (h', ph')"
    and "0 \<le> i" "i < 2 * map_size + 1" "0 \<le> j" "j < 2 * map_size + 1"
  shows "(\<exists>v. grid_get (world_map h) i j = Inr v)
       \<and> (even i \<and> even j \<longrightarrow>
            grid_get (world_map h) i j = Inr WALL_INTERSECTION
          \<and> grid_get (world_map h') i j = Inr WALL_INTERSECTION)
       \<and> (\<forall>v. grid_get (world_map h) i j = Inr v \<and> v \<noteq> PyNone \<longrightarrow>
            grid_get (world_map h') i j = Inr v)"
proof -
  let ?sim = "generate_world_map_from_file world_map_string"
  let ?n = "2 * map_size + 1"
  from assms(4-7) have i: "in_grid ?n i" and j: "in_grid ?n j" by (simp_all add: in_grid_def)
  from explore_invariant [OF assms(1,2)] have inv: "invariant ?sim (h, ph)"
    and dims: "MAP_DIMENSIONS h = ?n" by simp_all
  from explore_invariant [OF assms(1,3)] have inv': "invariant ?sim (h', ph')"
    and dims': "MAP_DIMENSIONS h' = ?n" by simp_all
  from inv have wf: "well_formed h" by (cases ph) simp_all
  from inv' have wf': "well_formed h'" by (cases ph') simp_all
  from explore_add [OF assms(2), of m] assms(3) have later: "run m ?sim (h, ph) = (h', ph')"
    by simp
  from run_invariant [OF inv, of m] later dims
  have kept: "knowledge_kept ?n (world_map h) (world_map h')" by simp
  from grid_get_in_grid [OF wf_shape [OF wf]] dims i j
  have ex: "\<exists>v. grid_get (world_map h) i j = Inr v" by simp
  have sect: "grid_get (world_map h) i j = Inr WALL_INTERSECTION
          \<and> grid_get (world_map h') i j = Inr WALL_INTERSECTION" if "even i" "even j"
    using wf wf' dims dims' i j that unfolding well_formed_def by simp
  from kept i j have "\<forall>v. grid_get (world_map h) i j = Inr v \<and> v \<noteq> PyNone \<longrightarrow>
            grid_get (world_map h') i j = Inr v"
    unfolding knowledge_kept_def by blast
  with ex sect show ?thesis by blast
qed

theorem knowledge_is_monotonic_witness:
  "explore 0 2 dead_end_map = Inr (fresh_handler, Scan [East, North, West, South])
   \<and> explore 11 2 dead_end_map = Inr (dead_end_handler, Decide)
   \<and> grid_get (world_map fresh_handler) 3 1 = Inr CELL
   \<and> grid_get (world_map dead_end_handler) 3 1 = Inr CELL
   \<and> grid_get (world_map fresh_handler) 2 2 = Inr WALL_INTERSECTION
   \<and> grid_get (world_map dead_end_handler) 2 2 = Inr WALL_INTERSECTION"
proof -
  have size: "(1::int) \<le> 2" by simp
  have first: "explore 0 2 dead_end_map = Inr (fresh_handler, Scan [East, North, West, South])"
    by code_simp
  from dead_end_run have later: "explore (0 + 11) 2 dead_end_map = Inr (dead_end_handler, Decide)"
    by simp
  have cell: "grid_get (world_map fresh_handler) 3 1 = Inr CELL" by code_simp
  have sect: "grid_get (world_map fresh_handler) 2 2 = Inr WALL_INTERSECTION" by code_simp
  from knowledge_is_monotonic [OF size first later, of 3 1] cell
  have "grid_get (world_map dead_end_handler) 3 1 = Inr CELL" by simp
  moreover from knowledge_is_monotonic [OF size first later, of 2 2]
  have "grid_get (world_map dead_end_handler) 2 2 = Inr WALL_INTERSECTION" by simp
  ultimately show ?thesis using first later cell sect by simp
qed

text \<open>
  C7. The move (the step out of the decide state: \<open>find_best_direction\<close>, the turn and
  \<open>move_forward\<close>) is only made where all four directions are recorded: in every
  decide state that a run reaches, \<open>direction_recorded\<close> is true for each direction at
  the current pose. A scanning step does not change the coordinates unless it finds the
  treasure, and then the run is over: the state stays as it is and no move follows.
\<close>

theorem move_only_after_full_scan:
  assumes "1 \<le> map_size"
    and "explore k map_size world_map_string = Inr (h, ph)"
  shows "(ph = Decide \<longrightarrow> (\<forall>d. direction_recorded h d = Inr True))
       \<and> (ph = GoalFound \<longrightarrow> explore (k + m) map_size world_map_string = Inr (h, GoalFound))
       \<and> (\<forall>ds h' ph'. ph = Scan ds
             \<and> explore (Suc k) map_size world_map_string = Inr (h', ph') \<and> ph' \<noteq> GoalFound \<longrightarrow>
             xpos (current_postion h') = xpos (current_postion h)
           \<and> ypos (current_postion h') = ypos (current_postion h))"
proof -
  let ?sim = "generate_world_map_from_file world_map_string"
  from explore_invariant [OF assms] have inv: "invariant ?sim (h, ph)" by simp
  then have decide: "ph = Decide \<longrightarrow> (\<forall>d. direction_recorded h d = Inr True)" by auto
  have goal: "explore (k + m) map_size world_map_string = Inr (h, GoalFound)" if "ph = GoalFound"
    using explore_add [OF assms(2), of m] that by (simp add: run_GoalFound [of 0, simplified])
  have scan: "xpos (current_postion h') = xpos (current_postion h)
           \<and> ypos (current_postion h') = ypos (current_postion h)"
    if ph: "ph = Scan ds" and nxt: "explore (Suc k) map_size world_map_string = Inr (h', ph')"
      and ng: "ph' \<noteq> GoalFound" for ds h' ph'
  proof -
    from explore_add [OF assms(2), of 1] nxt ph have st: "step ?sim (h, Scan ds) = (h', ph')"
      by simp
    show ?thesis
    proof (cases ds)
      case Nil
      with st show ?thesis by simp
    next
      case (Cons d rest)
      obtain h1 r where res: "scan_direction ?sim h d = (h1, r)"
        by (cases "scan_direction ?sim h d")
      with st Cons ng have "h' = h1" and "r \<noteq> Inr True"
        by (auto split: sum.splits if_splits)
      with scan_direction_position [of ?sim h d h1 r] res show ?thesis by simp
    qed
  qed
  from decide goal scan show ?thesis by blast
qed

theorem move_only_after_full_scan_witness:
  "explore 11 2 dead_end_map = Inr (dead_end_handler, Decide)
   \<and> map (direction_recorded dead_end_handler) [North, East, South, West]
       = [Inr True, Inr True, Inr True, Inr True]
   \<and> explore 1 2 goal_ahead_map = Inr (goal_ahead_handler, GoalFound)
   \<and> explore (1 + 7) 2 goal_ahead_map = Inr (goal_ahead_handler, GoalFound)"
proof -
  have size: "(1::int) \<le> 2" by simp
  note decide = dead_end_run
  have goal: "explore 1 2 goal_ahead_map = Inr (goal_ahead_handler, GoalFound)"
    by code_simp
  from move_only_after_full_scan [OF size decide]
  have "\<forall>d. direction_recorded dead_end_handler d = Inr True" by simp
  then have "map (direction_recorded dead_end_handler) [North, East, South, West]
       = [Inr True, Inr True, Inr True, Inr True]" by simp
  moreover from move_only_after_full_scan [OF size goal, of 7]
  have "explore (1 + 7) 2 goal_ahead_map = Inr (goal_ahead_handler, GoalFound)" by simp
  ultimately show ?thesis using decide goal by simp
qed

subsection \<open>No subscript leaves the grid at the decide step\<close>

lemma count_loop_total:
  assumes wf: "well_formed h"
    and cx: "interior (MAP_DIMENSIONS h) (xpos c)" and cy: "interior (MAP_DIMENSIONS h) (ypos c)"
  shows "\<exists>m. count_loop h c ds n0 = Inr m"
proof (induction ds arbitrary: n0)
  case Nil
  show ?case by simp
next
  case (Cons e ds)
  let ?n = "MAP_DIMENSIONS h"
  let ?wy = "ypos c + off_y (handle_direction Walls e)" and ?wx = "xpos c + off_x (handle_direction Walls e)"
  let ?ty = "ypos c + off_y (handle_direction Cells e)" and ?tx = "xpos c + off_x (handle_direction Cells e)"
  from wall_slot_in_grid [OF cx cy, of e] have w: "in_grid ?n ?wy" "in_grid ?n ?wx" by simp_all
  from grid_get_in_grid [OF wf_shape [OF wf] w] obtain wv where
    wv: "grid_get (world_map h) ?wy ?wx = Inr wv" by blast
  show ?case
  proof (cases "wv = WALL")
    case True
    with wv Cons.IH [of n0] show ?thesis
      by (simp add: get_wall_in_direction_eq del: handle_direction_simps)
  next
    case False
    with wv have "grid_get (world_map h) ?wy ?wx \<noteq> Inr WALL" by simp
    from cell_slot_interior [OF wf cx cy this]
    have t: "in_grid ?n ?ty" "in_grid ?n ?tx" by (simp_all add: interior_in_grid)
    from grid_get_in_grid [OF wf_shape [OF wf] t] obtain cv where
      cv: "grid_get (world_map h) ?ty ?tx = Inr cv" by blast
    from wv False cv Cons.IH [of n0] Cons.IH [of "n0 + 1"] show ?thesis
      by (simp add: get_wall_in_direction_eq Let_def del: handle_direction_simps)
  qed
qed

lemma checks_total:
  assumes wf: "well_formed h"
  shows "(\<exists>b. check_valid_path h d = Inr b)
       \<and> (check_valid_path h d = Inr True \<longrightarrow> (\<exists>m. unexplored_score h d = Inr m))"
proof -
  let ?n = "MAP_DIMENSIONS h"
  let ?px = "xpos (current_postion h)" and ?py = "ypos (current_postion h)"
  let ?wy = "?py + off_y (handle_direction Walls d)" and ?wx = "?px + off_x (handle_direction Walls d)"
  let ?ty = "?py + off_y (handle_direction Cells d)" and ?tx = "?px + off_x (handle_direction Cells d)"
  from wf_pos [OF wf] have ipx: "interior ?n ?px" and ipy: "interior ?n ?py" by simp_all
  from wall_slot_in_grid [OF ipx ipy, of d] have w: "in_grid ?n ?wy" "in_grid ?n ?wx" by simp_all
  from grid_get_in_grid [OF wf_shape [OF wf] w] obtain wv where
    wv: "grid_get (world_map h) ?wy ?wx = Inr wv" by blast
  show ?thesis
  proof (cases "truthy wv")
    case True
    with wv have "check_valid_path h d = Inr False"
      by (simp add: check_valid_path_eq get_wall_in_direction_eq del: handle_direction_simps)
    then show ?thesis by auto
  next
    case False
    with wv have "grid_get (world_map h) ?wy ?wx \<noteq> Inr WALL" by auto
    from cell_slot_interior [OF wf ipx ipy this]
    have it: "interior ?n ?tx" "interior ?n ?ty" by simp_all
    then have t: "in_grid ?n ?ty" "in_grid ?n ?tx" by (simp_all add: interior_in_grid)
    from grid_get_in_grid [OF wf_shape [OF wf] t] obtain cv where
      cv: "grid_get (world_map h) ?ty ?tx = Inr cv" by blast
    from wv False cv have "check_valid_path h d = Inr (cv \<noteq> PIT)"
      by (simp add: check_valid_path_eq get_wall_in_direction_eq get_cell_in_direction_eq
          del: handle_direction_simps)
    then have valid: "\<exists>b. check_valid_path h d = Inr b" by blast
    from it have "\<exists>m. count_loop h (neighbour_cell h d) DIRECTIONS 0 = Inr m"
      by (intro count_loop_total wf) (simp_all add: neighbour_cell_def)
    with valid show ?thesis
      by (simp add: unexplored_score_def count_surrounding_unexplored_def)
  qed
qed

text \<open>
  C3. A direction returned by \<open>find_best_direction\<close> is one of the enumerated
  directions and satisfies \<open>check_valid_path\<close> at the current pose: the wall-segment
  slot toward it holds no recorded wall and the neighbouring cell slot is not \<open>PIT\<close>,
  whatever its unexplored count. And at a decide step of a run where an enumerated
  direction qualifies, \<open>find_best_direction\<close> does return a direction.
\<close>

theorem find_best_direction_valid:
  "(find_best_direction h = Inr d \<longrightarrow>
       d \<in> set (generate_direction_priority h None)
     \<and> check_valid_path h d = Inr True
     \<and> (\<exists>w. get_wall_in_direction h (current_postion h) d = Inr w \<and> \<not> truthy w \<and> w \<noteq> WALL)
     \<and> (\<exists>c. get_cell_in_direction h (current_postion h) d = Inr c \<and> c \<noteq> PIT))
   \<and> (1 \<le> map_size \<and> explore k map_size world_map_string = Inr (h, Decide)
       \<and> (\<exists>c \<in> set (generate_direction_priority h None). check_valid_path h c = Inr True) \<longrightarrow>
       (\<exists>t. find_best_direction h = Inr t \<and> check_valid_path h t = Inr True))"
proof -
  have safe: "d \<in> set (generate_direction_priority h None)
     \<and> check_valid_path h d = Inr True
     \<and> (\<exists>w. get_wall_in_direction h (current_postion h) d = Inr w \<and> \<not> truthy w \<and> w \<noteq> WALL)
     \<and> (\<exists>c. get_cell_in_direction h (current_postion h) d = Inr c \<and> c \<noteq> PIT)"
    if ret: "find_best_direction h = Inr d"
  proof -
    let ?P = "\<lambda>k d. check_valid_path h d = Inr True \<and> unexplored_score h d = Inr k"
    from find_best_direction_result [OF ret] obtain k where
      ne: "filter (?P k) (generate_direction_priority h None) \<noteq> []"
      and d: "d = hd (filter (?P k) (generate_direction_priority h None))"
      by blast
    from ne have "hd (filter (?P k) (generate_direction_priority h None))
        \<in> set (filter (?P k) (generate_direction_priority h None))"
      by (rule hd_in_set)
    with d have "d \<in> set (filter (?P k) (generate_direction_priority h None))"
      by (simp only:)
    then have mem: "d \<in> set (generate_direction_priority h None)"
      and valid: "check_valid_path h d = Inr True"
      by simp_all
    from valid have "(\<exists>w. get_wall_in_direction h (current_postion h) d = Inr w \<and> \<not> truthy w \<and> w \<noteq> WALL)
         \<and> (\<exists>c. get_cell_in_direction h (current_postion h) d = Inr c \<and> c \<noteq> PIT)"
      by (auto simp: check_valid_path_eq split: sum.splits if_splits)
    with mem valid show ?thesis by blast
  qed
  have returns: "\<exists>t. find_best_direction h = Inr t \<and> check_valid_path h t = Inr True"
    if size: "1 \<le> map_size" and ex: "explore k map_size world_map_string = Inr (h, Decide)"
      and some: "\<exists>c \<in> set (generate_direction_priority h None). check_valid_path h c = Inr True"
  proof -
    from explore_invariant [OF size ex] have wf: "well_formed h" by simp
    from checks_total [OF wf]
    have ok: "\<forall>d \<in> set (generate_direction_priority h None).
            (\<exists>b. check_valid_path h d = Inr b)
          \<and> (check_valid_path h d = Inr True \<longrightarrow> (\<exists>n. unexplored_score h d = Inr n))"
      by blast
    from find_best_direction_stable_max [OF ok some] show ?thesis by blast
  qed
  from safe returns show ?thesis by blast
qed

theorem find_best_direction_valid_witness:
  "find_best_direction fresh_handler = Inr North
   \<and> check_valid_path fresh_handler North = Inr True
   \<and> explore 5 2 dead_end_map = Inr (first_decide_handler, Decide)
   \<and> check_valid_path first_decide_handler North = Inr True
   \<and> find_best_direction first_decide_handler = Inr North"
proof -
  have size: "(1::int) \<le> 2" by simp
  have ret: "find_best_direction fresh_handler = Inr North"
    by code_simp
  have ex: "explore 5 2 dead_end_map = Inr (first_decide_handler, Decide)"
    by code_simp
  have prio: "generate_direction_priority first_decide_handler None = [West, South, North, South]"
    by code_simp
  have valid: "check_valid_path first_decide_handler North = Inr True"
    by code_simp
  with prio have some: "\<exists>c \<in> set (generate_direction_priority first_decide_handler None).
      check_valid_path first_decide_handler c = Inr True"
    by simp
  have best: "find_best_direction first_decide_handler = Inr North"
    by code_simp
  from find_best_direction_valid [of fresh_handler North] ret
  have "check_valid_path fresh_handler North = Inr True" by blast
  moreover from find_best_direction_valid [of first_decide_handler North 2 5 dead_end_map] size ex some
  have "\<exists>t. find_best_direction first_decide_handler = Inr t \<and> check_valid_path first_decide_handler t = Inr True"
    by blast
  ultimately show ?thesis using ret ex valid best by blast
qed

end
